theory Spec2Isabelle
  imports Main "HOL-Library.Sublist"
begin

section \<open>Strings as the controller sees them\<close>

text \<open>
  A JavaScript string is modelled as a \<open>string\<close>: a list of 8-bit code units, read as
  Latin-1. Character tests are written on the code of the character. The white space
  of \<open>trim()\<close> and of the regular-expression escape \<open>\s\<close> is TAB, LF, VT, FF, CR,
  SPACE and NBSP (the members of the ECMAScript set that an 8-bit unit can hold); the
  word characters of \<open>\w\<close> and \<open>\b\<close> are the ASCII letters, the digits and the underscore.
\<close>

definition is_digit :: "char \<Rightarrow> bool" where
  "is_digit c = (let n = (of_char c :: nat) in 48 \<le> n \<and> n \<le> 57)"

definition is_upper :: "char \<Rightarrow> bool" where
  "is_upper c = (let n = (of_char c :: nat) in 65 \<le> n \<and> n \<le> 90)"

definition is_lower :: "char \<Rightarrow> bool" where
  "is_lower c = (let n = (of_char c :: nat) in 97 \<le> n \<and> n \<le> 122)"

definition is_space :: "char \<Rightarrow> bool" where
  "is_space c = (let n = (of_char c :: nat) in (9 \<le> n \<and> n \<le> 13) \<or> n = 32 \<or> n = 160)"

definition is_word :: "char \<Rightarrow> bool" where
  "is_word c = (is_upper c \<or> is_lower c \<or> is_digit c \<or> c = CHR ''_'')"

text \<open>
  \<open>toLowerCase()\<close> and \<open>toUpperCase()\<close>, one code unit at a time. In ASCII and in the
  Latin-1 letter block the two cases differ in bit 5 only. The three Latin-1 letters
  whose upper case lies outside Latin-1 (sharp s, y with diaeresis, micro sign) are
  left as they are; the controller upper-cases only text that its patterns have
  already restricted to ASCII letters, digits, hyphens and white space.
\<close>

definition to_lower_ch :: "char \<Rightarrow> char" where
  "to_lower_ch c =
     (let n = (of_char c :: nat) in
      if (65 \<le> n \<and> n \<le> 90) \<or> (192 \<le> n \<and> n \<le> 222 \<and> n \<noteq> 215)
      then Char (digit0 c) (digit1 c) (digit2 c) (digit3 c) (digit4 c) True (digit6 c) (digit7 c)
      else c)"

definition to_upper_ch :: "char \<Rightarrow> char" where
  "to_upper_ch c =
     (let n = (of_char c :: nat) in
      if (97 \<le> n \<and> n \<le> 122) \<or> (224 \<le> n \<and> n \<le> 254 \<and> n \<noteq> 247)
      then Char (digit0 c) (digit1 c) (digit2 c) (digit3 c) (digit4 c) False (digit6 c) (digit7 c)
      else c)"

definition toLowerCase :: "string \<Rightarrow> string" where
  "toLowerCase s = map to_lower_ch s"

definition toUpperCase :: "string \<Rightarrow> string" where
  "toUpperCase s = map to_upper_ch s"

definition trim :: "string \<Rightarrow> string" where
  "trim s = rev (dropWhile is_space (rev (dropWhile is_space s)))"

text \<open>\<open>s.includes(sub)\<close>: \<open>sub\<close> occurs in \<open>s\<close> as a contiguous run.\<close>

fun starts_with :: "string \<Rightarrow> string \<Rightarrow> bool" where
  "starts_with s [] = True"
| "starts_with [] (y # ys) = False"
| "starts_with (x # xs) (y # ys) = (x = y \<and> starts_with xs ys)"

fun str_includes :: "string \<Rightarrow> string \<Rightarrow> bool" where
  "str_includes [] sub = (sub = [])"
| "str_includes (x # xs) sub = (starts_with (x # xs) sub \<or> str_includes xs sub)"

text \<open>\<open>parts.join(' ')\<close>.\<close>

fun join_sp :: "string list \<Rightarrow> string" where
  "join_sp [] = []"
| "join_sp [x] = x"
| "join_sp (x # y # ys) = x @ '' '' @ join_sp (y # ys)"

section \<open>Regular expressions\<close>

text \<open>
  The patterns of the controller use literals, character classes, the dot, the
  assertions \<open>\b\<close>, \<open>^\<close> and \<open>$\<close>, sequence, alternation, the greedy quantifiers
  \<open>*\<close>, \<open>+\<close>, \<open>?\<close> and \<open>{n,}\<close>, and at most one group whose text is read afterwards.
  \<open>Grp\<close> is that group; the groups whose text is never read are plain structure.
\<close>

datatype catom = CChar char | CRange char char | CDigit | CSpace

datatype regex =
    Eps
  | Chr char
  | Cls "catom list"
  | Dot
  | WordB
  | Bol
  | Eol
  | Seq regex regex
  | Alt regex regex
  | Star regex
  | Opt regex
  | Grp regex

fun cat :: "regex list \<Rightarrow> regex" where
  "cat [] = Eps"
| "cat [r] = r"
| "cat (r # rs) = Seq r (cat rs)"

definition lit :: "string \<Rightarrow> regex" where
  "lit cs = cat (map Chr cs)"

definition Plus :: "regex \<Rightarrow> regex" where
  "Plus r = Seq r (Star r)"

fun at_least :: "nat \<Rightarrow> regex \<Rightarrow> regex" where
  "at_least 0 r = Star r"
| "at_least (Suc n) r = Seq r (at_least n r)"

text \<open>
  With the \<open>i\<close> flag two characters are equal when their canonical (upper-case) forms
  are; a range holds a character when it holds one of its case variants.
\<close>

definition ch_eq :: "bool \<Rightarrow> char \<Rightarrow> char \<Rightarrow> bool" where
  "ch_eq ic a x = (a = x \<or> (ic \<and> to_upper_ch a = to_upper_ch x))"

definition in_range :: "char \<Rightarrow> char \<Rightarrow> char \<Rightarrow> bool" where
  "in_range lo hi x = ((of_char lo :: nat) \<le> of_char x \<and> (of_char x :: nat) \<le> of_char hi)"

fun atom_mem :: "bool \<Rightarrow> catom \<Rightarrow> char \<Rightarrow> bool" where
  "atom_mem ic (CChar a) x = ch_eq ic a x"
| "atom_mem ic (CRange lo hi) x =
     (in_range lo hi x \<or> (ic \<and> (in_range lo hi (to_upper_ch x) \<or> in_range lo hi (to_lower_ch x))))"
| "atom_mem ic CDigit x = is_digit x"
| "atom_mem ic CSpace x = is_space x"

definition cls_mem :: "bool \<Rightarrow> catom list \<Rightarrow> char \<Rightarrow> bool" where
  "cls_mem ic as x = list_ex (\<lambda>a. atom_mem ic a x) as"

text \<open>
  A matcher state is the character before the current position (none at the start of
  the input), the input still to read, and the text of the group so far. \<open>ms\<close> lists
  the states in which a pattern can end, in the order in which a backtracking matcher
  tries them: a greedy quantifier tries one more round before it tries to stop, and a
  round of \<open>*\<close> or \<open>?\<close> that reads nothing is abandoned.
\<close>

type_synonym mstate = "char option \<times> string \<times> string option"

definition st_rest :: "mstate \<Rightarrow> string" where
  "st_rest st = fst (snd st)"

definition word_opt :: "char option \<Rightarrow> bool" where
  "word_opt p = (case p of None \<Rightarrow> False | Some x \<Rightarrow> is_word x)"

definition next_ch :: "string \<Rightarrow> char option" where
  "next_ch s = (case s of [] \<Rightarrow> None | x # _ \<Rightarrow> Some x)"

definition is_line_end :: "char \<Rightarrow> bool" where
  "is_line_end c = (let n = (of_char c :: nat) in n = 10 \<or> n = 13)"

function ms :: "bool \<Rightarrow> regex \<Rightarrow> mstate \<Rightarrow> mstate list" where
  "ms ic Eps st = [st]"
| "ms ic (Chr a) st =
     (case st_rest st of [] \<Rightarrow> []
      | x # xs \<Rightarrow> if ch_eq ic a x then [(Some x, xs, snd (snd st))] else [])"
| "ms ic (Cls as) st =
     (case st_rest st of [] \<Rightarrow> []
      | x # xs \<Rightarrow> if cls_mem ic as x then [(Some x, xs, snd (snd st))] else [])"
| "ms ic Dot st =
     (case st_rest st of [] \<Rightarrow> []
      | x # xs \<Rightarrow> if is_line_end x then [] else [(Some x, xs, snd (snd st))])"
| "ms ic WordB st =
     (if word_opt (fst st) \<noteq> word_opt (next_ch (st_rest st)) then [st] else [])"
| "ms ic Bol st = (if fst st = None then [st] else [])"
| "ms ic Eol st = (if st_rest st = [] then [st] else [])"
| "ms ic (Seq a b) st = concat (map (ms ic b) (ms ic a st))"
| "ms ic (Alt a b) st = ms ic a st @ ms ic b st"
| "ms ic (Star r) st =
     concat (map (\<lambda>st'. if length (st_rest st') < length (st_rest st)
                         then ms ic (Star r) st' else [])
                 (ms ic r st)) @ [st]"
| "ms ic (Opt r) st =
     filter (\<lambda>st'. length (st_rest st') < length (st_rest st)) (ms ic r st) @ [st]"
| "ms ic (Grp r) st =
     map (\<lambda>st'. (fst st', st_rest st',
                 Some (take (length (st_rest st) - length (st_rest st')) (st_rest st))))
         (ms ic r st)"
  by pat_completeness auto
termination
  by (relation "inv_image (less_than <*lex*> less_than)
                  (\<lambda>(ic, r, st). (size r, length (st_rest st)))") auto

text \<open>The equation for \<open>Star\<close> unfolds into itself, so it is applied by hand.\<close>

declare ms.simps(10) [simp del]

text \<open>
  \<open>re_exec\<close> is \<open>RegExp.prototype.exec\<close> without the \<open>g\<close> flag: the first start
  position, from the left, at which the pattern matches, with the matched text
  (\<open>match[0]\<close>) and the text of the group (\<open>match[1]\<close>). \<open>re_test\<close> is \<open>test\<close>.
\<close>

fun re_exec_from :: "bool \<Rightarrow> regex \<Rightarrow> char option \<Rightarrow> string \<Rightarrow> (string \<times> string option) option" where
  "re_exec_from ic r p s =
     (case ms ic r (p, s, None) of
        st' # _ \<Rightarrow> Some (take (length s - length (st_rest st')) s, snd (snd st'))
      | [] \<Rightarrow> (case s of [] \<Rightarrow> None | x # xs \<Rightarrow> re_exec_from ic r (Some x) xs))"

declare re_exec_from.simps [simp del]

definition re_exec :: "bool \<Rightarrow> regex \<Rightarrow> string \<Rightarrow> (string \<times> string option) option" where
  "re_exec ic r s = re_exec_from ic r None s"

definition re_test :: "bool \<Rightarrow> regex \<Rightarrow> string \<Rightarrow> bool" where
  "re_test ic r s = (re_exec ic r s \<noteq> None)"

text \<open>
  \<open>replace_all\<close> is \<open>String.prototype.replace\<close> with a pattern that carries the \<open>g\<close>
  flag and a replacement text without group references: every match, found from the
  left and never overlapping, is replaced; after a match that read nothing the next
  character is copied and the search goes on behind it.
\<close>

function replace_all_from :: "bool \<Rightarrow> regex \<Rightarrow> string \<Rightarrow> char option \<Rightarrow> string \<Rightarrow> string" where
  "replace_all_from ic r rep p s =
     (case ms ic r (p, s, None) of
        [] \<Rightarrow> (case s of [] \<Rightarrow> [] | x # xs \<Rightarrow> x # replace_all_from ic r rep (Some x) xs)
      | st' # _ \<Rightarrow>
          if length (st_rest st') < length s
          then rep @ replace_all_from ic r rep (fst st') (st_rest st')
          else (case s of [] \<Rightarrow> rep
                | x # xs \<Rightarrow> rep @ x # replace_all_from ic r rep (Some x) xs))"
  by pat_completeness auto
termination
  by (relation "measure (\<lambda>(ic, r, rep, p, s). length s)") auto

declare replace_all_from.simps [simp del]

definition replace_all :: "bool \<Rightarrow> regex \<Rightarrow> string \<Rightarrow> string \<Rightarrow> string" where
  "replace_all ic r rep s = replace_all_from ic r rep None s"

section \<open>MRN detection\<close>

text \<open>
  The five patterns of \<open>_detectMRN\<close>, in the order of the source, each with its \<open>i\<close>
  flag:
  \<^verbatim>\<open>/\bMRN[-\s]*([A-Z]{2,}[-\s]*\d+)\b/i\<close>,
  \<^verbatim>\<open>/\bMRN\s+(?:number\s+)?(\d+)\b/i\<close>,
  \<^verbatim>\<open>/\bpatient'?s?\s+MRN\s+(?:is\s+)?([A-Z]{2,}\d+)\b/i\<close>,
  \<^verbatim>\<open>/\b[Mm]\s*[Rr]\s*[Nn]\s+([A-Z]{2,}\s*\d+|\d+)\b/\<close>,
  \<^verbatim>\<open>/\b([A-Z]{2,}\d{3,})\b/\<close>.
\<close>

definition cls_AZ :: regex where
  "cls_AZ = Cls [CRange (CHR ''A'') (CHR ''Z'')]"

definition cls_d :: regex where
  "cls_d = Cls [CDigit]"

definition cls_s :: regex where
  "cls_s = Cls [CSpace]"

definition cls_hyphen_s :: regex where
  "cls_hyphen_s = Cls [CChar (CHR ''-''), CSpace]"

definition mrn_pattern1 :: regex where
  "mrn_pattern1 = cat [WordB, lit ''MRN'', Star cls_hyphen_s,
                       Grp (cat [at_least 2 cls_AZ, Star cls_hyphen_s, Plus cls_d]), WordB]"

definition mrn_pattern2 :: regex where
  "mrn_pattern2 = cat [WordB, lit ''MRN'', Plus cls_s, Opt (cat [lit ''number'', Plus cls_s]),
                       Grp (Plus cls_d), WordB]"

definition mrn_pattern3 :: regex where
  "mrn_pattern3 = cat [WordB, lit ''patient'', Opt (Chr (CHR 0x27)), Opt (Chr (CHR ''s'')),
                       Plus cls_s, lit ''MRN'', Plus cls_s, Opt (cat [lit ''is'', Plus cls_s]),
                       Grp (cat [at_least 2 cls_AZ, Plus cls_d]), WordB]"

definition mrn_pattern4 :: regex where
  "mrn_pattern4 = cat [WordB, Cls [CChar (CHR ''M''), CChar (CHR ''m'')], Star cls_s,
                       Cls [CChar (CHR ''R''), CChar (CHR ''r'')], Star cls_s,
                       Cls [CChar (CHR ''N''), CChar (CHR ''n'')], Plus cls_s,
                       Grp (Alt (cat [at_least 2 cls_AZ, Star cls_s, Plus cls_d]) (Plus cls_d)),
                       WordB]"

definition mrn_pattern5 :: regex where
  "mrn_pattern5 = cat [WordB, Grp (cat [at_least 2 cls_AZ, at_least 3 cls_d]), WordB]"

definition mrn_patterns :: "(bool \<times> regex) list" where
  "mrn_patterns = [(True, mrn_pattern1), (True, mrn_pattern2), (True, mrn_pattern3),
                   (False, mrn_pattern4), (False, mrn_pattern5)]"

text \<open>
  The body of the loop after a match: white space and hyphens are removed from the
  group, the rest is upper-cased, and a value of digits alone
  (\<^verbatim>\<open>/^\d+$/\<close>) receives the prefix \<open>MRNAB\<close>.
\<close>

definition normalize_mrn :: "string \<Rightarrow> string" where
  "normalize_mrn g =
     (let mrn = toUpperCase (replace_all False (Chr (CHR ''-'')) []
                               (replace_all False (Plus cls_s) [] g))
      in if re_test False (cat [Bol, Plus cls_d, Eol]) mrn then ''MRNAB'' @ mrn else mrn)"

text \<open>
  The value is returned when it passes \<^verbatim>\<open>/[A-Z]/\<close> and \<^verbatim>\<open>/\d/\<close>; otherwise the
  loop goes on to the next pattern.
\<close>

definition looks_like_mrn :: "string \<Rightarrow> bool" where
  "looks_like_mrn mrn = (re_test False cls_AZ mrn \<and> re_test False cls_d mrn)"

fun try_patterns :: "(bool \<times> regex) list \<Rightarrow> string \<Rightarrow> string option" where
  "try_patterns [] text = None"
| "try_patterns ((ic, r) # ps) text =
     (case re_exec ic r text of
        Some (m0, Some g) \<Rightarrow>
          if g \<noteq> [] \<and> looks_like_mrn (normalize_mrn g) then Some (normalize_mrn g)
          else try_patterns ps text
      | _ \<Rightarrow> try_patterns ps text)"

definition detectMRN :: "string \<Rightarrow> string option" where
  "detectMRN text = (if text = [] then None else try_patterns mrn_patterns text)"

section \<open>Template detection\<close>

text \<open>
  The \<open>normalize\<close> closure of \<open>_detectTemplate\<close>: four global, case-insensitive
  replacements, \<^verbatim>\<open>/\b(consultation|consult)\b/gi\<close>, \<^verbatim>\<open>/\b(soap)\b/gi\<close>,
  \<^verbatim>\<open>/\b(progress)\b/gi\<close> and \<^verbatim>\<open>/\b(note|notes)\b/gi\<close>.
\<close>

definition re_consultation :: regex where
  "re_consultation = cat [WordB, Alt (lit ''consultation'') (lit ''consult''), WordB]"

definition re_soap :: regex where
  "re_soap = cat [WordB, lit ''soap'', WordB]"

definition re_progress :: regex where
  "re_progress = cat [WordB, lit ''progress'', WordB]"

definition re_notes :: regex where
  "re_notes = cat [WordB, Alt (lit ''note'') (lit ''notes''), WordB]"

definition normalize :: "string \<Rightarrow> string" where
  "normalize str =
     replace_all True re_notes ''note''
       (replace_all True re_progress ''progress''
          (replace_all True re_soap ''soap''
             (replace_all True re_consultation ''consultation'' str)))"

text \<open>
  \<^verbatim>\<open>str.split(/\s+/)\<close>: the pieces between the maximal runs of white space; a run at
  the start or at the end of the text leaves an empty piece there. \<open>cur\<close> is the piece
  being read, reversed, and \<open>insep\<close> says that the previous character was white space.
\<close>

fun split_ws :: "string \<Rightarrow> bool \<Rightarrow> string \<Rightarrow> string list" where
  "split_ws cur insep [] = [rev cur]"
| "split_ws cur insep (x # xs) =
     (if is_space x then (if insep then split_ws [] True xs else rev cur # split_ws [] True xs)
      else split_ws (x # cur) False xs)"

definition templateWords_of :: "string \<Rightarrow> string list" where
  "templateWords_of normalizedTemplate =
     filter (\<lambda>w. length w > 3 \<and> w \<notin> set [''form'', ''note'', ''the''])
            (split_ws [] False normalizedTemplate)"

definition matchedWords_of :: "string \<Rightarrow> string list \<Rightarrow> string list" where
  "matchedWords_of normalizedText templateWords =
     filter (\<lambda>word. str_includes normalizedText word) templateWords"

text \<open>
  \<open>matchRatio >= 0.7\<close> compares the quotient of two list lengths with the constant;
  it is written on the integers, \<open>7 * n_words \<le> 10 * n_matched\<close>. The two agree for any
  lengths a template name can have: the double division is exact to one unit in the
  last place, and a quotient other than 7/10 is further from it than that.
\<close>

definition ratio_ok :: "nat \<Rightarrow> nat \<Rightarrow> bool" where
  "ratio_ok n_matched n_words = (7 * n_words \<le> 10 * n_matched)"

definition phrases_of :: "string list \<Rightarrow> string list" where
  "phrases_of templateWords =
     [hd templateWords @ '' '' @ last templateWords, join_sp (take 2 templateWords)]"

fun detect_in :: "string \<Rightarrow> string list \<Rightarrow> string option" where
  "detect_in normalizedText [] = None"
| "detect_in normalizedText (template # rest) =
     (let normalizedTemplate = normalize (toLowerCase template) in
      if str_includes normalizedText normalizedTemplate then Some template
      else
        let templateWords = templateWords_of normalizedTemplate in
        if templateWords = [] then detect_in normalizedText rest
        else if ratio_ok (length (matchedWords_of normalizedText templateWords))
                         (length templateWords) then Some template
        else if list_ex (\<lambda>phrase. length phrase > 5 \<and> str_includes normalizedText phrase)
                        (phrases_of templateWords) then Some template
        else detect_in normalizedText rest)"

definition detectTemplate :: "string list \<Rightarrow> string \<Rightarrow> string option" where
  "detectTemplate templates text =
     (if text = [] then None
      else if templates = [] then None
      else detect_in (normalize (toLowerCase text)) templates)"

section \<open>The controller\<close>

text \<open>
  The fields of \<open>VoiceController\<close> that its result handling reads or writes. A rule of
  \<open>customMap\<close> is a pattern with its flag and the action it stands for; \<open>rec_set\<close> says
  that \<open>_rec\<close> holds a recognizer. The callbacks handed to the constructor are the
  events a call emits, in order.
\<close>

record custom_rule =
  rule_re :: regex
  rule_ic :: bool
  rule_action :: string

datatype event =
    OnCommand string string
  | OnTranscript string bool
  | OnListenStateChange bool
  | OnError string
  | OnMRNTemplateDetected string string string

record controller =
  customMap :: "custom_rule list"
  rec_set :: bool
  listening :: bool
  lastPartialAt :: int
  partialThrottleMs :: int
  noteMode :: bool
  noteBuffer :: string
  fullTranscript :: string
  detectedMRN :: "string option"
  detectedTemplate :: "string option"
  availableTemplates :: "string list"

definition new_controller :: "custom_rule list \<Rightarrow> controller" where
  "new_controller cm =
     \<lparr> customMap = cm, rec_set = False, listening = False, lastPartialAt = 0,
       partialThrottleMs = 800, noteMode = False, noteBuffer = [], fullTranscript = [],
       detectedMRN = None, detectedTemplate = None, availableTemplates = [] \<rparr>"

definition setTemplates :: "string list \<Rightarrow> controller \<Rightarrow> controller" where
  "setTemplates templates c = (if templates \<noteq> [] then c\<lparr>availableTemplates := templates\<rparr> else c)"

definition resetDetection :: "controller \<Rightarrow> controller" where
  "resetDetection c = c\<lparr>fullTranscript := [], detectedMRN := None, detectedTemplate := None\<rparr>"

text \<open>A value is truthy when it is a string that is not empty.\<close>

definition truthy :: "string option \<Rightarrow> bool" where
  "truthy v = (case v of None \<Rightarrow> False | Some s \<Rightarrow> s \<noteq> [])"

definition emitStartNote :: "controller \<Rightarrow> controller \<times> event list" where
  "emitStartNote c =
     (if noteMode c then (c, [])
      else (c\<lparr>noteMode := True, noteBuffer := []\<rparr>, [OnCommand ''start_note'' ''note'']))"

definition emitStopNote :: "controller \<Rightarrow> controller \<times> event list" where
  "emitStopNote c =
     (if \<not> noteMode c then (c, [])
      else
        let finalNote = trim (noteBuffer c) in
        (c\<lparr>noteMode := False, noteBuffer := []\<rparr>,
         (if finalNote \<noteq> [] then [OnTranscript finalNote True] else [])
           @ [OnCommand ''stop_note'' ''create'']))"

definition stop :: "controller \<Rightarrow> controller \<times> event list" where
  "stop c =
     (if \<not> rec_set c then (c, [])
      else
        let c1 = c\<lparr>listening := False\<rparr>;
            (c2, ev) = (if noteMode c1 then emitStopNote c1 else (c1, []))
        in (c2, OnListenStateChange False # ev))"

definition detectMRNAndTemplate :: "controller \<Rightarrow> string \<Rightarrow> controller \<times> event list" where
  "detectMRNAndTemplate c text =
     (if text = [] then (c, [])
      else
        let mrnMatch = detectMRN text;
            c1 = (if truthy mrnMatch \<and> mrnMatch \<noteq> detectedMRN c
                  then c\<lparr>detectedMRN := mrnMatch\<rparr> else c);
            templateMatch = detectTemplate (availableTemplates c1) text;
            c2 = (if truthy templateMatch \<and> templateMatch \<noteq> detectedTemplate c1
                  then c1\<lparr>detectedTemplate := templateMatch\<rparr> else c1)
        in (case (detectedMRN c2, detectedTemplate c2) of
              (Some mrn, Some template) \<Rightarrow>
                if mrn \<noteq> [] \<and> template \<noteq> []
                then (c2, [OnMRNTemplateDetected mrn template (fullTranscript c2)])
                else (c2, [])
            | _ \<Rightarrow> (c2, [])))"

subsection \<open>Command parsing\<close>

text \<open>
  The patterns of \<open>_parseCommand\<close>, none of which carries a flag:
  \<^verbatim>\<open>/\bnote\b/\<close>, \<^verbatim>\<open>/\bcreate\b/\<close>, \<^verbatim>\<open>/\bdisconnect\b/\<close>, \<^verbatim>\<open>/\bconnect\b/\<close>,
  \<^verbatim>\<open>/\bunmute(\s+mic(rophone)?)?\b/\<close>, \<^verbatim>\<open>/\bmute(\s+mic(rophone)?)?\b/\<close>,
  \<^verbatim>\<open>/\bstart( the)? (stream|video|camera)\b/\<close>,
  \<^verbatim>\<open>/\bstop( the)? (stream|video|camera)\b/\<close>,
  \<^verbatim>\<open>/\bhide( the)? (video|camera|preview)?\b/\<close>,
  \<^verbatim>\<open>/\bshow( the)? (video|camera|preview)?\b/\<close>,
  \<^verbatim>\<open>/\bsend( an)? urgent (message|alert)\b/\<close> and \<^verbatim>\<open>/\burgent\b.*\bmessage\b/\<close>.
\<close>

definition re_note :: regex where
  "re_note = cat [WordB, lit ''note'', WordB]"

definition re_create :: regex where
  "re_create = cat [WordB, lit ''create'', WordB]"

definition re_disconnect :: regex where
  "re_disconnect = cat [WordB, lit ''disconnect'', WordB]"

definition re_connect :: regex where
  "re_connect = cat [WordB, lit ''connect'', WordB]"

definition re_mic :: regex where
  "re_mic = Opt (cat [Plus cls_s, lit ''mic'', Opt (lit ''rophone'')])"

definition re_unmute :: regex where
  "re_unmute = cat [WordB, lit ''unmute'', re_mic, WordB]"

definition re_mute :: regex where
  "re_mute = cat [WordB, lit ''mute'', re_mic, WordB]"

definition re_stream_word :: regex where
  "re_stream_word = Alt (lit ''stream'') (Alt (lit ''video'') (lit ''camera''))"

definition re_video_word :: regex where
  "re_video_word = Alt (lit ''video'') (Alt (lit ''camera'') (lit ''preview''))"

definition re_start_stream :: regex where
  "re_start_stream = cat [WordB, lit ''start'', Opt (lit '' the''), Chr (CHR '' ''),
                          re_stream_word, WordB]"

definition re_stop_stream :: regex where
  "re_stop_stream = cat [WordB, lit ''stop'', Opt (lit '' the''), Chr (CHR '' ''),
                         re_stream_word, WordB]"

definition re_hide_video :: regex where
  "re_hide_video = cat [WordB, lit ''hide'', Opt (lit '' the''), Chr (CHR '' ''),
                        Opt re_video_word, WordB]"

definition re_show_video :: regex where
  "re_show_video = cat [WordB, lit ''show'', Opt (lit '' the''), Chr (CHR '' ''),
                        Opt re_video_word, WordB]"

definition re_send_urgent :: regex where
  "re_send_urgent = cat [WordB, lit ''send'', Opt (lit '' an''), lit '' urgent '',
                         Alt (lit ''message'') (lit ''alert''), WordB]"

definition re_urgent_message :: regex where
  "re_urgent_message = cat [WordB, lit ''urgent'', WordB, Star Dot, WordB, lit ''message'', WordB]"

text \<open>The first rule of \<open>customMap\<close> whose pattern matches decides, with its action.\<close>

fun custom_action :: "custom_rule list \<Rightarrow> string \<Rightarrow> string option" where
  "custom_action [] text = None"
| "custom_action (rule # rules) text =
     (if re_test (rule_ic rule) (rule_re rule) text then Some (rule_action rule)
      else custom_action rules text)"

text \<open>
  \<open>_parseCommand\<close> returns the action, or nothing. The two note rules call
  \<open>_emitStartNote\<close> and \<open>_emitStopNote\<close> before they return, so the call also yields a
  controller and the events of that call.
\<close>

definition parseCommand :: "controller \<Rightarrow> string \<Rightarrow> controller \<times> event list \<times> string option" where
  "parseCommand c s =
     (let text = trim (toLowerCase s) in
      if text = [] then (c, [], None)
      else
        case custom_action (customMap c) text of
          Some action \<Rightarrow> (c, [], Some action)
        | None \<Rightarrow>
            if re_test False re_note text
              then (fst (emitStartNote c), snd (emitStartNote c), Some ''start_note'')
            else if re_test False re_create text
              then (fst (emitStopNote c), snd (emitStopNote c), Some ''stop_note'')
            else if re_test False re_disconnect text then (c, [], Some ''disconnect'')
            else if re_test False re_connect text then (c, [], Some ''connect'')
            else if re_test False re_unmute text then (c, [], Some ''unmute'')
            else if re_test False re_mute text then (c, [], Some ''mute'')
            else if re_test False re_start_stream text then (c, [], Some ''start_stream'')
            else if re_test False re_stop_stream text then (c, [], Some ''stop_stream'')
            else if re_test False re_hide_video text then (c, [], Some ''hide_video'')
            else if re_test False re_show_video text then (c, [], Some ''show_video'')
            else if re_test False re_send_urgent text then (c, [], Some ''urgent'')
            else if re_test False re_urgent_message text then (c, [], Some ''urgent'')
            else (c, [], None))"

subsection \<open>Recognizer results\<close>

text \<open>
  One slot of \<open>e.results\<close>: its alternatives, best first, and its \<open>isFinal\<close> flag.
  \<^verbatim>\<open>(res[0]?.transcript || '').trim()\<close> is the trimmed text of the best alternative,
  empty when there is none.
\<close>

record result_slot =
  alternatives :: "string list"
  isFinal :: bool

definition slot_text :: "result_slot \<Rightarrow> string" where
  "slot_text res = trim (case alternatives res of [] \<Rightarrow> [] | a # _ \<Rightarrow> a)"

text \<open>
  The loop of \<open>_onResult\<close> over all slots from index 0: the texts of the final slots
  in order, and the text of the last slot when that slot is not final. A slot whose
  text is empty is skipped.
\<close>

fun collect :: "result_slot list \<Rightarrow> string list \<times> string" where
  "collect [] = ([], [])"
| "collect (res # rest) =
     (let txt = slot_text res; (finalSegments, latestInterim) = collect rest in
      if txt = [] then (finalSegments, latestInterim)
      else if isFinal res then (txt # finalSegments, latestInterim)
      else if rest = [] then (finalSegments, txt)
      else (finalSegments, latestInterim))"

definition append_sp :: "string \<Rightarrow> string \<Rightarrow> string" where
  "append_sp acc txt = acc @ (if acc \<noteq> [] then '' '' else []) @ txt"

text \<open>\<open>_onResult\<close>; \<open>now\<close> is the value of \<open>Date.now()\<close> at the call.\<close>

definition onResult :: "int \<Rightarrow> result_slot list \<Rightarrow> controller \<Rightarrow> controller \<times> event list" where
  "onResult now results c =
     (let (finalSegments, latestInterim) = collect results in
      if latestInterim \<noteq> [] \<and> finalSegments = [] then
        (if now - lastPartialAt c \<ge> partialThrottleMs c
         then (c\<lparr>lastPartialAt := now\<rparr>, [OnTranscript latestInterim False])
         else (c, []))
      else if finalSegments \<noteq> [] then
        let finalTxt = join_sp finalSegments;
            finalTxtLower = toLowerCase finalTxt;
            c1 = c\<lparr>fullTranscript := append_sp (fullTranscript c) finalTxt\<rparr>;
            (c2, ev2) = detectMRNAndTemplate c1 finalTxt
        in
          if noteMode c2 then
            let c3 = c2\<lparr>noteBuffer := append_sp (noteBuffer c2) finalTxt\<rparr>;
                ev3 = [OnTranscript finalTxt True]
            in if re_test False re_create finalTxtLower
               then (fst (emitStopNote c3), ev2 @ ev3 @ snd (emitStopNote c3))
               else (c3, ev2 @ ev3)
          else
            let (c3, ev3, action) = parseCommand c2 finalTxtLower
            in (case action of
                  Some a \<Rightarrow>
                    if a \<noteq> [] then (c3, ev2 @ ev3 @ [OnCommand a finalTxt])
                    else (c3, ev2 @ ev3 @ [OnTranscript finalTxt True])
                | None \<Rightarrow> (c3, ev2 @ ev3 @ [OnTranscript finalTxt True]))
      else (c, []))"

text \<open>
  A listening session is the list of result callbacks the recognizer makes, each with
  its time; \<open>session\<close> runs them in order and collects the events.
\<close>

fun session :: "(int \<times> result_slot list) list \<Rightarrow> controller \<Rightarrow> controller \<times> event list" where
  "session [] c = (c, [])"
| "session ((now, results) # cbs) c =
     (let (c1, ev1) = onResult now results c; (c2, ev2) = session cbs c1 in (c2, ev1 @ ev2))"

section \<open>The session store\<close>

text \<open>
  \<open>ScribeStorage\<close> keeps three texts and one JSON object in \<open>localStorage\<close>. The
  store is a map from keys to texts; the JSON text under \<open>scribe_session_data\<close> is
  kept as the object it encodes. \<open>ls_fail\<close> is the exception with which the platform
  answers: a \<open>SecurityError\<close> on every access (storage switched off), a
  \<open>QuotaExceededError\<close> on every write (storage full), or none. Every method of
  \<open>ScribeStorage\<close> catches the exception, logs it and goes on.
\<close>

datatype storage_error = SecurityError | QuotaExceededError

record session_data =
  sd_mrn :: "string option"
  sd_template :: "string option"
  sd_transcript :: "string option"
  sd_timestamp :: "int option"

record local_storage =
  ls_items :: "string \<rightharpoonup> string"
  ls_session :: "session_data option"
  ls_fail :: "storage_error option"

definition CURRENT_MRN :: string where
  "CURRENT_MRN = ''scribe_current_mrn''"

definition CURRENT_TEMPLATE :: string where
  "CURRENT_TEMPLATE = ''scribe_current_template''"

definition CURRENT_TRANSCRIPT :: string where
  "CURRENT_TRANSCRIPT = ''scribe_current_transcript''"

definition getItem :: "local_storage \<Rightarrow> string \<Rightarrow> storage_error + string option" where
  "getItem st k = (if ls_fail st = Some SecurityError then Inl SecurityError else Inr (ls_items st k))"

definition setItem :: "local_storage \<Rightarrow> string \<Rightarrow> string \<Rightarrow> storage_error + local_storage" where
  "setItem st k v =
     (case ls_fail st of Some e \<Rightarrow> Inl e
      | None \<Rightarrow> Inr (st\<lparr>ls_items := (ls_items st)(k \<mapsto> v)\<rparr>))"

definition removeItem :: "local_storage \<Rightarrow> string \<Rightarrow> storage_error + local_storage" where
  "removeItem st k =
     (if ls_fail st = Some SecurityError then Inl SecurityError
      else Inr (st\<lparr>ls_items := (ls_items st)(k := None)\<rparr>))"

definition getSessionItem :: "local_storage \<Rightarrow> storage_error + session_data option" where
  "getSessionItem st = (if ls_fail st = Some SecurityError then Inl SecurityError else Inr (ls_session st))"

definition setSessionItem :: "local_storage \<Rightarrow> session_data \<Rightarrow> storage_error + local_storage" where
  "setSessionItem st d =
     (case ls_fail st of Some e \<Rightarrow> Inl e | None \<Rightarrow> Inr (st\<lparr>ls_session := Some d\<rparr>))"

definition removeSessionItem :: "local_storage \<Rightarrow> storage_error + local_storage" where
  "removeSessionItem st =
     (if ls_fail st = Some SecurityError then Inl SecurityError
      else Inr (st\<lparr>ls_session := None\<rparr>))"

definition empty_session :: session_data where
  "empty_session = \<lparr> sd_mrn = None, sd_template = None, sd_transcript = None, sd_timestamp = None \<rparr>"

definition getSessionData :: "local_storage \<Rightarrow> session_data" where
  "getSessionData st =
     (case getSessionItem st of Inl e \<Rightarrow> empty_session
      | Inr None \<Rightarrow> empty_session
      | Inr (Some d) \<Rightarrow> d)"

text \<open>The object spread \<^verbatim>\<open>{ ...existing, ...data }\<close>: a field of \<open>data\<close> that is present wins.\<close>

definition spread :: "session_data \<Rightarrow> session_data \<Rightarrow> session_data" where
  "spread existing data =
     \<lparr> sd_mrn = (case sd_mrn data of Some v \<Rightarrow> Some v | None \<Rightarrow> sd_mrn existing),
       sd_template = (case sd_template data of Some v \<Rightarrow> Some v | None \<Rightarrow> sd_template existing),
       sd_transcript = (case sd_transcript data of Some v \<Rightarrow> Some v | None \<Rightarrow> sd_transcript existing),
       sd_timestamp = (case sd_timestamp data of Some v \<Rightarrow> Some v | None \<Rightarrow> sd_timestamp existing) \<rparr>"

definition saveSessionData :: "int \<Rightarrow> session_data \<Rightarrow> local_storage \<Rightarrow> local_storage" where
  "saveSessionData now data st =
     (let existing = getSessionData st;
          updated = (spread existing data)\<lparr>sd_timestamp := Some now\<rparr>
      in case setSessionItem st updated of Inl e \<Rightarrow> st | Inr st' \<Rightarrow> st')"

definition updateSessionData :: "int \<Rightarrow> session_data \<Rightarrow> local_storage \<Rightarrow> local_storage" where
  "updateSessionData now data st = saveSessionData now (spread (getSessionData st) data) st"

definition saveMRN :: "int \<Rightarrow> string \<Rightarrow> local_storage \<Rightarrow> local_storage" where
  "saveMRN now mrn st =
     (if mrn = [] then st
      else case setItem st CURRENT_MRN mrn of
             Inl e \<Rightarrow> st
           | Inr st' \<Rightarrow> updateSessionData now (empty_session\<lparr>sd_mrn := Some mrn\<rparr>) st')"

definition getMRN :: "local_storage \<Rightarrow> string option" where
  "getMRN st =
     (case getItem st CURRENT_MRN of
        Inl e \<Rightarrow> None
      | Inr None \<Rightarrow> None
      | Inr (Some v) \<Rightarrow> if v \<noteq> [] then Some v else None)"

text \<open>
  \<open>clearAll\<close> removes the four keys in the order of \<open>STORAGE_KEYS\<close>, inside one
  \<open>try\<close>: the first removal that raises ends the loop.
\<close>

definition clearAll :: "local_storage \<Rightarrow> local_storage" where
  "clearAll st =
     (case removeItem st CURRENT_MRN of Inl e \<Rightarrow> st
      | Inr s1 \<Rightarrow>
     (case removeItem s1 CURRENT_TEMPLATE of Inl e \<Rightarrow> s1
      | Inr s2 \<Rightarrow>
     (case removeItem s2 CURRENT_TRANSCRIPT of Inl e \<Rightarrow> s2
      | Inr s3 \<Rightarrow>
     (case removeSessionItem s3 of Inl e \<Rightarrow> s3 | Inr s4 \<Rightarrow> s4))))"

definition clearMRN :: "local_storage \<Rightarrow> local_storage" where
  "clearMRN st =
     (case removeItem st CURRENT_MRN of Inl e \<Rightarrow> st
      | Inr s1 \<Rightarrow>
          (case setSessionItem s1 ((getSessionData s1)\<lparr>sd_mrn := None\<rparr>) of
             Inl e \<Rightarrow> s1 | Inr s2 \<Rightarrow> s2))"

section \<open>Observations on event lists\<close>

text \<open>
  The action set that the header of the source documents for \<open>onCommand\<close>, and the
  calls of each callback in a list of events, in order.
\<close>

definition fixed_actions :: "string list" where
  "fixed_actions = [''connect'', ''disconnect'', ''start_stream'', ''stop_stream'', ''mute'',
                    ''unmute'', ''hide_video'', ''show_video'', ''urgent'', ''start_note'',
                    ''stop_note'']"

fun commands_of :: "event list \<Rightarrow> (string \<times> string) list" where
  "commands_of [] = []"
| "commands_of (OnCommand a r # evs) = (a, r) # commands_of evs"
| "commands_of (ev # evs) = commands_of evs"

fun transcripts_of :: "event list \<Rightarrow> (string \<times> bool) list" where
  "transcripts_of [] = []"
| "transcripts_of (OnTranscript t f # evs) = (t, f) # transcripts_of evs"
| "transcripts_of (ev # evs) = transcripts_of evs"

fun detections_of :: "event list \<Rightarrow> (string \<times> string \<times> string) list" where
  "detections_of [] = []"
| "detections_of (OnMRNTemplateDetected m t x # evs) = (m, t, x) # detections_of evs"
| "detections_of (ev # evs) = detections_of evs"

text \<open>
  The final slots that a session delivers, over all its callbacks in order, and the
  texts that \<open>_onResult\<close> keeps of them: trimmed, the empty ones left out.
\<close>

definition final_slots :: "(int \<times> result_slot list) list \<Rightarrow> result_slot list" where
  "final_slots cbs = filter isFinal (concat (map snd cbs))"

definition kept_texts :: "result_slot list \<Rightarrow> string list" where
  "kept_texts slots = filter (\<lambda>t. t \<noteq> []) (map slot_text slots)"

text \<open>
  The two halves of the detection step of \<open>_onResult\<close> for a final text: the
  controller after the transcript has grown and \<open>_detectMRNAndTemplate\<close> has run, and
  the events of that run.
\<close>

definition after_detect :: "controller \<Rightarrow> string \<Rightarrow> controller" where
  "after_detect c finalTxt =
     fst (detectMRNAndTemplate (c\<lparr>fullTranscript := append_sp (fullTranscript c) finalTxt\<rparr>) finalTxt)"

definition detect_events_of :: "controller \<Rightarrow> string \<Rightarrow> event list" where
  "detect_events_of c finalTxt =
     snd (detectMRNAndTemplate (c\<lparr>fullTranscript := append_sp (fullTranscript c) finalTxt\<rparr>) finalTxt)"

text \<open>The final text of a callback: its kept final texts, joined.\<close>

definition finalTxt_of :: "result_slot list \<Rightarrow> string" where
  "finalTxt_of results = join_sp (fst (collect results))"

text \<open>Slots with one alternative, and a caller's rule, for the examples.\<close>

definition final_slot :: "string \<Rightarrow> result_slot" where
  "final_slot t = \<lparr>alternatives = [t], isFinal = True\<rparr>"

definition interim_slot :: "string \<Rightarrow> result_slot" where
  "interim_slot t = \<lparr>alternatives = [t], isFinal = False\<rparr>"

definition lights_rule :: custom_rule where
  "lights_rule = \<lparr>rule_re = lit ''lights'', rule_ic = False, rule_action = ''lights_on''\<rparr>"

section \<open>Characters a pattern cannot match without\<close>

text \<open>
  \<open>needs C ic r\<close>: every match of \<open>r\<close> reads at least one character that satisfies
  \<open>C\<close>. It is a sufficient test on the shape of the pattern, used to show that a text
  without such characters has no match. \<open>mrn_trigger\<close> is the test that all five MRN
  patterns need: a capital letter or the letter m.
\<close>

fun needs :: "(char \<Rightarrow> bool) \<Rightarrow> bool \<Rightarrow> regex \<Rightarrow> bool" where
  "needs C ic (Chr a) = (\<forall>x. ch_eq ic a x \<longrightarrow> C x)"
| "needs C ic (Cls as) = (\<forall>x. cls_mem ic as x \<longrightarrow> C x)"
| "needs C ic (Seq a b) = (needs C ic a \<or> needs C ic b)"
| "needs C ic (Alt a b) = (needs C ic a \<and> needs C ic b)"
| "needs C ic (Grp r) = needs C ic r"
| "needs C ic r = False"

definition mrn_trigger :: "char \<Rightarrow> bool" where
  "mrn_trigger c = (is_upper c \<or> c = CHR ''m'')"

text \<open>
  \<open>reads_word ic body n\<close>: every match of \<open>body\<close> reads a run of at least one and at
  most \<open>n\<close> word characters and ends behind its last character. The bodies of the
  four patterns of \<open>normalize\<close> are of this kind.
\<close>

definition reads_word :: "bool \<Rightarrow> regex \<Rightarrow> nat \<Rightarrow> bool" where
  "reads_word ic body n =
     (\<forall>st st'. st' \<in> set (ms ic body st) \<longrightarrow>
        (\<exists>m. st_rest st = m @ st_rest st' \<and> m \<noteq> [] \<and> (\<forall>c\<in>set m. is_word c)
             \<and> fst st' = Some (last m) \<and> length m \<le> n))"

section \<open>What a match reads\<close>

text \<open>
  \<open>reaches st m st'\<close>: from the state \<open>st\<close> the matcher has read the text \<open>m\<close> and
  stands in \<open>st'\<close>. \<open>ms_first\<close> is the state in which a backtracking matcher ends, the
  first of the list \<open>ms\<close>.
\<close>

definition reaches :: "mstate \<Rightarrow> string \<Rightarrow> mstate \<Rightarrow> bool" where
  "reaches st m st' =
     (st_rest st = m @ st_rest st' \<and> fst st' = (if m = [] then fst st else Some (last m)))"

definition ms_first :: "bool \<Rightarrow> regex \<Rightarrow> mstate \<Rightarrow> mstate option" where
  "ms_first ic r st = (case ms ic r st of [] \<Rightarrow> None | st' # _ \<Rightarrow> Some st')"

text \<open>
  The keyword of \<open>_detectMRN\<close>, \<^verbatim>\<open>/\b[Mm]\s*[Rr]\s*[Nn]/\<close>: the letters M, R, N in
  either case, with optional white space between them, at a word boundary. It is the
  start of the fourth pattern; the first and the second pattern start with its
  spelling without white space, and the third reads that spelling after "patient"
  and white space.
\<close>

definition mrn_keyword :: regex where
  "mrn_keyword = cat [WordB, Cls [CChar (CHR ''M''), CChar (CHR ''m'')], Star cls_s,
                      Cls [CChar (CHR ''R''), CChar (CHR ''r'')], Star cls_s,
                      Cls [CChar (CHR ''N''), CChar (CHR ''n'')]]"

section \<open>Events and state of the controller's steps\<close>

lemma commands_of_append [simp]: "commands_of (xs @ ys) = commands_of xs @ commands_of ys"
  by (induction xs rule: commands_of.induct) auto
lemma transcripts_of_append [simp]: "transcripts_of (xs @ ys) = transcripts_of xs @ transcripts_of ys"
  by (induction xs rule: transcripts_of.induct) auto
lemma detections_of_append [simp]: "detections_of (xs @ ys) = detections_of xs @ detections_of ys"
  by (induction xs rule: detections_of.induct) auto

lemma custom_action_in: "custom_action rules text = Some a \<Longrightarrow> a \<in> rule_action ` set rules"
  by (induction rules) (auto split: if_splits)

lemma emitStartNote_state:
  "customMap (fst (emitStartNote c)) = customMap c"
  "fullTranscript (fst (emitStartNote c)) = fullTranscript c"
  by (simp_all add: emitStartNote_def)

lemma emitStartNote_events:
  "set (commands_of (snd (emitStartNote c))) \<subseteq> {(''start_note'', ''note'')}"
  by (simp add: emitStartNote_def)

lemma emitStopNote_state:
  "customMap (fst (emitStopNote c)) = customMap c"
  "fullTranscript (fst (emitStopNote c)) = fullTranscript c"
  by (simp_all add: emitStopNote_def Let_def)

lemma emitStopNote_events:
  "set (commands_of (snd (emitStopNote c))) \<subseteq> {(''stop_note'', ''create'')}"
  by (simp add: emitStopNote_def Let_def)

lemma parseCommand_empty:
  "trim (toLowerCase s) = [] \<Longrightarrow> parseCommand c s = (c, [], None)"
  by (simp add: parseCommand_def)

lemma parseCommand_custom:
  "trim (toLowerCase s) \<noteq> [] \<Longrightarrow> custom_action (customMap c) (trim (toLowerCase s)) = Some a
   \<Longrightarrow> parseCommand c s = (c, [], Some a)"
  by (simp add: parseCommand_def)

lemma parseCommand_state:
  "customMap (fst (parseCommand c s)) = customMap c"
  "fullTranscript (fst (parseCommand c s)) = fullTranscript c"
proof -
  show "customMap (fst (parseCommand c s)) = customMap c"
  proof (cases "trim (toLowerCase s) = []")
    case True then show ?thesis by (simp add: parseCommand_empty)
  next
    case False
    then show ?thesis
      by (cases "custom_action (customMap c) (trim (toLowerCase s))")
         (simp_all add: parseCommand_def Let_def emitStartNote_state emitStopNote_state)
  qed
  show "fullTranscript (fst (parseCommand c s)) = fullTranscript c"
  proof (cases "trim (toLowerCase s) = []")
    case True then show ?thesis by (simp add: parseCommand_empty)
  next
    case False
    then show ?thesis
      by (cases "custom_action (customMap c) (trim (toLowerCase s))")
         (simp_all add: parseCommand_def Let_def emitStartNote_state emitStopNote_state)
  qed
qed

lemma parseCommand_events:
  "set (commands_of (fst (snd (parseCommand c s))))
     \<subseteq> {(''start_note'', ''note''), (''stop_note'', ''create'')}"
proof (cases "trim (toLowerCase s) = []")
  case True then show ?thesis by (simp add: parseCommand_empty)
next
  case False
  then show ?thesis
    using emitStartNote_events[of c] emitStopNote_events[of c]
    by (cases "custom_action (customMap c) (trim (toLowerCase s))")
       (auto simp add: parseCommand_def Let_def)
qed

lemma parseCommand_action:
  assumes "snd (snd (parseCommand c s)) = Some a"
  shows "a \<in> set fixed_actions \<union> rule_action ` set (customMap c)"
proof (cases "trim (toLowerCase s) = []")
  case True with assms show ?thesis by (simp add: parseCommand_empty)
next
  case False
  show ?thesis
  proof (cases "custom_action (customMap c) (trim (toLowerCase s))")
    case (Some b)
    with False assms have "a = b" by (simp add: parseCommand_custom)
    with Some show ?thesis by (auto dest: custom_action_in)
  next
    case None
    have "case snd (snd (parseCommand c s)) of None \<Rightarrow> True | Some x \<Rightarrow> x \<in> set fixed_actions"
      using False None by (simp add: parseCommand_def Let_def fixed_actions_def)
    with assms show ?thesis by simp
  qed
qed

lemma detect_state:
  "customMap (fst (detectMRNAndTemplate c t)) = customMap c"
  "fullTranscript (fst (detectMRNAndTemplate c t)) = fullTranscript c"
  "noteMode (fst (detectMRNAndTemplate c t)) = noteMode c"
  "noteBuffer (fst (detectMRNAndTemplate c t)) = noteBuffer c"
  by (auto simp: detectMRNAndTemplate_def Let_def split: option.splits)

lemma detect_events:
  "commands_of (snd (detectMRNAndTemplate c t)) = []"
  "transcripts_of (snd (detectMRNAndTemplate c t)) = []"
  by (auto simp: detectMRNAndTemplate_def Let_def split: option.splits)

lemma collect_fst: "fst (collect rs) = kept_texts (filter isFinal rs)"
  by (induction rs) (auto simp: kept_texts_def Let_def split: prod.splits)

lemma onResult_no_final:
  "fst (collect rs) = [] \<Longrightarrow> fullTranscript (fst (onResult now rs c)) = fullTranscript c
     \<and> customMap (fst (onResult now rs c)) = customMap c
     \<and> commands_of (snd (onResult now rs c)) = []"
  by (cases "collect rs") (simp add: onResult_def)

lemma onResult_note:
  assumes "fst (collect rs) \<noteq> []" "noteMode c"
  shows "onResult now rs c =
     (let finalTxt = join_sp (fst (collect rs));
          c3 = (after_detect c finalTxt)\<lparr>noteBuffer := append_sp (noteBuffer c) finalTxt\<rparr>
      in if re_test False re_create (toLowerCase finalTxt)
         then (fst (emitStopNote c3),
               detect_events_of c finalTxt @ [OnTranscript finalTxt True] @ snd (emitStopNote c3))
         else (c3, detect_events_of c finalTxt @ [OnTranscript finalTxt True]))"
  using assms
  by (cases "collect rs")
     (simp add: onResult_def Let_def split_def after_detect_def detect_events_of_def detect_state)

lemma onResult_normal:
  assumes "fst (collect rs) \<noteq> []" "\<not> noteMode c"
  shows "onResult now rs c =
     (let finalTxt = join_sp (fst (collect rs));
          c2 = after_detect c finalTxt;
          pc = parseCommand c2 (toLowerCase finalTxt)
      in (fst pc, detect_events_of c finalTxt @ fst (snd pc) @
            (case snd (snd pc) of
               Some a \<Rightarrow> if a \<noteq> [] then [OnCommand a finalTxt] else [OnTranscript finalTxt True]
             | None \<Rightarrow> [OnTranscript finalTxt True])))"
  using assms
  by (cases "collect rs")
     (simp add: onResult_def Let_def split_def after_detect_def detect_events_of_def detect_state
           split: option.split)


lemma after_detect_state:
  "customMap (after_detect c t) = customMap c"
  "fullTranscript (after_detect c t) = append_sp (fullTranscript c) t"
  "noteMode (after_detect c t) = noteMode c"
  "noteBuffer (after_detect c t) = noteBuffer c"
  by (simp_all add: after_detect_def detect_state)

lemma detect_events_of_events:
  "commands_of (detect_events_of c t) = []"
  "transcripts_of (detect_events_of c t) = []"
  by (simp_all add: detect_events_of_def detect_events)

lemma onResult_state:
  "customMap (fst (onResult now rs c)) = customMap c"
  "fullTranscript (fst (onResult now rs c)) =
     (if fst (collect rs) = [] then fullTranscript c
      else append_sp (fullTranscript c) (join_sp (fst (collect rs))))"
proof -
  show "customMap (fst (onResult now rs c)) = customMap c"
  proof (cases "fst (collect rs) = []")
    case True then show ?thesis by (simp add: onResult_no_final)
  next
    case False
    then show ?thesis
      by (cases "noteMode c")
         (simp_all add: onResult_note onResult_normal Let_def emitStopNote_state
                        parseCommand_state after_detect_state)
  qed
  show "fullTranscript (fst (onResult now rs c)) =
     (if fst (collect rs) = [] then fullTranscript c
      else append_sp (fullTranscript c) (join_sp (fst (collect rs))))"
  proof (cases "fst (collect rs) = []")
    case True then show ?thesis by (simp add: onResult_no_final)
  next
    case False
    then show ?thesis
      by (cases "noteMode c")
         (simp_all add: onResult_note onResult_normal Let_def emitStopNote_state
                        parseCommand_state after_detect_state)
  qed
qed

lemma onResult_commands:
  assumes "(a, r) \<in> set (commands_of (snd (onResult now rs c)))"
  shows "a \<in> set fixed_actions \<union> rule_action ` set (customMap c)"
proof (cases "fst (collect rs) = []")
  case True with assms show ?thesis by (simp add: onResult_no_final)
next
  case False
  show ?thesis
  proof (cases "noteMode c")
    case True
    let ?t = "join_sp (fst (collect rs))"
    let ?c3 = "(after_detect c ?t)\<lparr>noteBuffer := append_sp (noteBuffer c) ?t\<rparr>"
    from assms False True
    have "(a, r) \<in> set (commands_of (snd (emitStopNote ?c3)))"
      by (simp add: onResult_note Let_def detect_events_of_events split: if_splits)
    with emitStopNote_events[of ?c3] have "a = ''stop_note''" by auto
    then show ?thesis by (simp add: fixed_actions_def)
  next
    case nm: False
    let ?t = "join_sp (fst (collect rs))"
    let ?pc = "parseCommand (after_detect c ?t) (toLowerCase ?t)"
    from assms False nm
    have "(a, r) \<in> set (commands_of (fst (snd ?pc))) \<or> (snd (snd ?pc) = Some a)"
      by (auto simp add: onResult_normal Let_def detect_events_of_events
               split: option.splits if_splits)
    then show ?thesis
    proof
      assume "(a, r) \<in> set (commands_of (fst (snd ?pc)))"
      with parseCommand_events[of "after_detect c ?t" "toLowerCase ?t"]
      have "a = ''start_note'' \<or> a = ''stop_note''" by auto
      then show ?thesis by (auto simp: fixed_actions_def)
    next
      assume "snd (snd ?pc) = Some a"
      from parseCommand_action[OF this] show ?thesis by (simp add: after_detect_state)
    qed
  qed
qed

lemma session_customMap: "customMap (fst (session cbs c)) = customMap c"
proof (induction cbs arbitrary: c)
  case Nil then show ?case by simp
next
  case (Cons cb cbs)
  obtain now rs where cb: "cb = (now, rs)" by (cases cb)
  show ?case using Cons[of "fst (onResult now rs c)"]
    by (simp add: cb split_def Let_def onResult_state)
qed

lemma session_commands:
  "(a, r) \<in> set (commands_of (snd (session cbs c)))
     \<Longrightarrow> a \<in> set fixed_actions \<union> rule_action ` set (customMap c)"
proof (induction cbs arbitrary: c)
  case Nil then show ?case by simp
next
  case (Cons cb cbs)
  obtain now rs where cb: "cb = (now, rs)" by (cases cb)
  from Cons.prems
  have "(a, r) \<in> set (commands_of (snd (onResult now rs c)))
        \<or> (a, r) \<in> set (commands_of (snd (session cbs (fst (onResult now rs c)))))"
    by (auto simp add: cb split_def Let_def)
  then show ?case
  proof
    assume "(a, r) \<in> set (commands_of (snd (onResult now rs c)))"
    then show ?thesis by (rule onResult_commands)
  next
    assume "(a, r) \<in> set (commands_of (snd (session cbs (fst (onResult now rs c)))))"
    from Cons.IH[OF this] show ?thesis by (simp add: onResult_state)
  qed
qed

lemma stop_commands:
  "(a, r) \<in> set (commands_of (snd (stop c))) \<Longrightarrow> a \<in> set fixed_actions"
  by (auto simp: stop_def emitStopNote_def Let_def fixed_actions_def split: if_splits)

section \<open>Command precedence\<close>

lemma lower_unmute_the_microphone:
  "trim (toLowerCase ''unmute the microphone'') = ''unmute the microphone''"
  by code_simp

lemma lower_disconnect_now:
  "trim (toLowerCase ''disconnect now'') = ''disconnect now''"
  by code_simp

lemma tests_unmute_the_microphone:
  "\<not> re_test False re_note ''unmute the microphone''"
  "\<not> re_test False re_create ''unmute the microphone''"
  "\<not> re_test False re_disconnect ''unmute the microphone''"
  "\<not> re_test False re_connect ''unmute the microphone''"
  "re_test False re_unmute ''unmute the microphone''"
  by code_simp+

lemma tests_disconnect_now:
  "\<not> re_test False re_note ''disconnect now''"
  "\<not> re_test False re_create ''disconnect now''"
  "re_test False re_disconnect ''disconnect now''"
  by code_simp+

text \<open>
  Claim C5. With an empty \<open>customMap\<close>, whatever the rest of the controller,
  \<open>_parseCommand\<close> answers \<open>unmute\<close> (so not \<open>mute\<close>) for "unmute the microphone" and
  \<open>disconnect\<close> (so not \<open>connect\<close>) for "disconnect now"; it changes nothing in the
  controller and emits nothing.
\<close>

theorem parseCommand_precedence:
  "parseCommand (c\<lparr>customMap := []\<rparr>) ''unmute the microphone''
     = (c\<lparr>customMap := []\<rparr>, [], Some ''unmute'')
   \<and> parseCommand (c\<lparr>customMap := []\<rparr>) ''disconnect now''
     = (c\<lparr>customMap := []\<rparr>, [], Some ''disconnect'')"
  by (simp add: parseCommand_def lower_unmute_the_microphone lower_disconnect_now
                tests_unmute_the_microphone tests_disconnect_now)

text \<open>
  Neither text passes the later pattern on its own: inside \<open>unmute\<close> and
  \<open>disconnect\<close> there is no word boundary before \<open>mute\<close> and \<open>connect\<close>.
\<close>

lemma later_patterns_do_not_match:
  "\<not> re_test False re_mute ''unmute the microphone''"
  "\<not> re_test False re_connect ''disconnect now''"
  by code_simp+

section \<open>The actions of onCommand\<close>

text \<open>
  Claim C8, as stated, fails: a rule of \<open>customMap\<close> carries an action of the caller's
  choice, \<open>_parseCommand\<close> returns it, and \<open>_onResult\<close> passes it to \<open>onCommand\<close>.
  With the rule \<^verbatim>\<open>{ re: /lights/, action: 'lights_on' }\<close> the utterance "lights on"
  gives \<open>onCommand('lights_on', 'lights on')\<close>.
\<close>

theorem onCommand_actions_counterexample:
  "commands_of (snd (onResult 0 [final_slot ''lights on''] (new_controller [lights_rule])))
     = [(''lights_on'', ''lights on'')]
   \<and> ''lights_on'' \<notin> set fixed_actions"
  by code_simp

text \<open>
  Claim C8, amended. Every action passed to \<open>onCommand\<close>, in any session of result
  callbacks and in \<open>stop()\<close>, belongs to the fixed set or is the action of a rule of
  \<open>customMap\<close>; with an empty \<open>customMap\<close> it belongs to the fixed set.
\<close>

theorem onCommand_actions:
  "(a, r) \<in> set (commands_of (snd (session cbs c))) \<or> (a, r) \<in> set (commands_of (snd (stop c)))
     \<Longrightarrow> a \<in> set fixed_actions \<union> rule_action ` set (customMap c)"
  by (auto dest: session_commands stop_commands)

lemma mute_command:
  "(''mute'', ''Mute'') \<in> set (commands_of (snd (session [(0, [final_slot ''Mute''])] (new_controller []))))"
  by code_simp

theorem onCommand_actions_witness:
  "(''mute'', ''Mute'') \<in> set (commands_of (snd (session [(0, [final_slot ''Mute''])] (new_controller []))))
   \<and> ''mute'' \<in> set fixed_actions"
  using onCommand_actions [of "''mute''" "''Mute''" "[(0, [final_slot ''Mute''])]" "new_controller []"]
        mute_command
  by (simp add: new_controller_def)

section \<open>Transcript order\<close>

lemma join_sp_eq_Nil: "\<forall>x\<in>set xs. x \<noteq> [] \<Longrightarrow> (join_sp xs = []) = (xs = [])"
  by (induction xs rule: join_sp.induct) auto

lemma join_sp_append:
  "\<forall>x\<in>set xs. x \<noteq> [] \<Longrightarrow> xs \<noteq> [] \<Longrightarrow> ys \<noteq> [] \<Longrightarrow>
     join_sp (xs @ ys) = join_sp xs @ '' '' @ join_sp ys"
proof (induction xs rule: join_sp.induct)
  case 1 then show ?case by simp
next
  case (2 x) then show ?case by (cases ys) auto
next
  case (3 x y zs) then show ?case by simp
qed

lemma kept_texts_nonempty: "\<forall>x\<in>set (kept_texts slots). x \<noteq> []"
  by (simp add: kept_texts_def)

lemma kept_texts_append: "kept_texts (xs @ ys) = kept_texts xs @ kept_texts ys"
  by (simp add: kept_texts_def)

lemma append_sp_join:
  assumes "\<forall>x\<in>set xs. x \<noteq> []" "ys \<noteq> []" "\<forall>x\<in>set ys. x \<noteq> []"
  shows "append_sp (if xs = [] then t else append_sp t (join_sp xs)) (join_sp ys)
           = append_sp t (join_sp (xs @ ys))"
proof (cases "xs = []")
  case True then show ?thesis by simp
next
  case False
  with assms have "join_sp xs \<noteq> []" by (simp add: join_sp_eq_Nil)
  with assms False show ?thesis by (simp add: append_sp_def join_sp_append)
qed

lemma session_fullTranscript:
  "fullTranscript (fst (session cbs c)) =
     (if kept_texts (final_slots cbs) = [] then fullTranscript c
      else append_sp (fullTranscript c) (join_sp (kept_texts (final_slots cbs))))"
proof (induction cbs arbitrary: c)
  case Nil then show ?case by (simp add: final_slots_def kept_texts_def)
next
  case (Cons cb cbs)
  obtain now rs where cb: "cb = (now, rs)" by (cases cb)
  let ?A = "kept_texts (filter isFinal rs)"
  let ?B = "kept_texts (final_slots cbs)"
  have fs: "kept_texts (final_slots (cb # cbs)) = ?A @ ?B"
    by (simp add: cb final_slots_def kept_texts_append)
  have step: "fullTranscript (fst (session (cb # cbs) c))
        = fullTranscript (fst (session cbs (fst (onResult now rs c))))"
    by (simp add: cb split_def Let_def)
  have one: "fullTranscript (fst (onResult now rs c))
        = (if ?A = [] then fullTranscript c else append_sp (fullTranscript c) (join_sp ?A))"
    by (simp add: onResult_state collect_fst)
  show ?case
  proof (cases "?B = []")
    case True
    then show ?thesis by (simp add: step Cons.IH one fs)
  next
    case False
    have "append_sp (if ?A = [] then fullTranscript c else append_sp (fullTranscript c) (join_sp ?A))
                    (join_sp ?B) = append_sp (fullTranscript c) (join_sp (?A @ ?B))"
      by (rule append_sp_join) (use False kept_texts_nonempty in auto)
    with False show ?thesis by (simp add: step Cons.IH one fs)
  qed
qed

text \<open>
  From an empty transcript, after any session of result callbacks the transcript is
  the trimmed texts of the final slots that the callbacks hand over, those that trim
  to nothing left out, in the order in which they are handed over and joined by single
  blanks. An interim slot adds nothing.
\<close>

lemma session_transcript_from_empty:
  "fullTranscript c = [] \<Longrightarrow>
     fullTranscript (fst (session cbs c)) = join_sp (kept_texts (final_slots cbs))"
  by (simp add: session_fullTranscript append_sp_def)

lemma session_transcript_is_trimmed:
  "fullTranscript (fst (session [(0, [final_slot ''one'', interim_slot ''tw'']),
                                  (1000, [final_slot '' two'', final_slot ''  '',
                                          final_slot ''three''])]
                                 (new_controller [])))
     = ''one two three''"
  by code_simp

text \<open>
  Claim C1. The recognizer runs with \<open>continuous = true\<close> unless the caller turns it
  off, and the result list of a callback of a continuous recognizer holds every slot of
  the session so far. \<open>_onResult\<close> scans that list from index 0 at every callback and
  appends every final text it finds. With the final slots "one", "two" and "three",
  finalized one after the other, the callbacks hand over [one], [one, two] and
  [one, two, three]; the transcript is then "one one two one two three", and not
  "one two three" with every segment once. The other copy of the handler in the same
  file scans from \<open>e.resultIndex\<close> and appends each final slot once.
\<close>

theorem transcript_repeats_redelivered_slots:
  "fullTranscript (fst (session [(0, [final_slot ''one'']),
                                  (1000, [final_slot ''one'', final_slot ''two'']),
                                  (2000, [final_slot ''one'', final_slot ''two'',
                                          final_slot ''three''])]
                                 (new_controller [])))
     = ''one one two one two three''"
  by code_simp

section \<open>Note mode\<close>

lemma trim_eq_Nil: "(trim s = []) = (\<forall>c\<in>set s. is_space c)"
proof -
  have A: "(trim s = []) = (\<forall>x\<in>set (dropWhile is_space s). is_space x)"
    by (simp add: trim_def)
  have B: "(\<forall>x\<in>set (dropWhile is_space s). is_space x) = (\<forall>c\<in>set s. is_space c)"
  proof
    assume all: "\<forall>x\<in>set (dropWhile is_space s). is_space x"
    show "\<forall>c\<in>set s. is_space c"
    proof (cases "dropWhile is_space s")
      case Nil then show ?thesis by simp
    next
      case (Cons x xs)
      then have "\<not> is_space x" using hd_dropWhile[of is_space s] by simp
      with Cons all show ?thesis by simp
    qed
  next
    assume "\<forall>c\<in>set s. is_space c"
    then show "\<forall>x\<in>set (dropWhile is_space s). is_space x" by (auto dest: set_dropWhileD)
  qed
  from A B show ?thesis by simp
qed

lemma trim_has_text: "trim s \<noteq> [] \<Longrightarrow> \<exists>c\<in>set (trim s). \<not> is_space c"
proof -
  assume ne: "trim s \<noteq> []"
  let ?d = "dropWhile is_space (rev (dropWhile is_space s))"
  from ne have "?d \<noteq> []" by (simp add: trim_def)
  then have "\<not> is_space (hd ?d)" by (rule hd_dropWhile)
  moreover from \<open>?d \<noteq> []\<close> have "hd ?d \<in> set (trim s)" by (simp add: trim_def)
  ultimately show ?thesis by blast
qed

lemma join_sp_set: "x \<in> set xs \<Longrightarrow> set x \<subseteq> set (join_sp xs)"
  by (induction xs rule: join_sp.induct) auto

lemma finalTxt_has_text:
  assumes "fst (collect rs) \<noteq> []"
  shows "\<exists>c\<in>set (join_sp (fst (collect rs))). \<not> is_space c"
proof -
  from assms obtain x where x: "x \<in> set (fst (collect rs))" by (cases "fst (collect rs)") auto
  then have "x \<in> set (kept_texts (filter isFinal rs))" by (simp add: collect_fst)
  then obtain r where "x = slot_text r" "x \<noteq> []" by (auto simp: kept_texts_def)
  then have "\<exists>c\<in>set x. \<not> is_space c"
    using trim_has_text[of "case alternatives r of [] \<Rightarrow> [] | a # _ \<Rightarrow> a"]
    by (simp add: slot_text_def)
  with join_sp_set[OF x] show ?thesis by blast
qed

lemma note_not_empty:
  assumes "fst (collect rs) \<noteq> []"
  shows "trim (append_sp buf (join_sp (fst (collect rs)))) \<noteq> []"
  using finalTxt_has_text[OF assms] by (auto simp add: trim_eq_Nil append_sp_def)

text \<open>
  Claim C2. In note mode, for a callback with at least one kept final text: when the
  lower-cased final text does not pass \<^verbatim>\<open>/\bcreate\b/\<close>, \<open>onCommand\<close> is not called,
  the one \<open>onTranscript\<close> call is \<open>(text, true)\<close>, note mode stays and the text is
  appended to the note buffer; when it passes, the calls are \<open>onTranscript(text, true)\<close>,
  \<open>onTranscript(note, true)\<close> with the trimmed buffer (which includes this text), and
  \<open>onCommand('stop_note', 'create')\<close>, and note mode is left with an empty buffer.
\<close>

theorem note_mode_override:
  assumes "noteMode c" and "fst (collect results) \<noteq> []"
  shows "(\<not> re_test False re_create (toLowerCase (finalTxt_of results)) \<longrightarrow>
            commands_of (snd (onResult now results c)) = []
          \<and> transcripts_of (snd (onResult now results c)) = [(finalTxt_of results, True)]
          \<and> noteMode (fst (onResult now results c))
          \<and> noteBuffer (fst (onResult now results c))
              = append_sp (noteBuffer c) (finalTxt_of results))
       \<and> (re_test False re_create (toLowerCase (finalTxt_of results)) \<longrightarrow>
            commands_of (snd (onResult now results c)) = [(''stop_note'', ''create'')]
          \<and> transcripts_of (snd (onResult now results c))
              = [(finalTxt_of results, True),
                 (trim (append_sp (noteBuffer c) (finalTxt_of results)), True)]
          \<and> \<not> noteMode (fst (onResult now results c))
          \<and> noteBuffer (fst (onResult now results c)) = [])"
  using assms note_not_empty[OF assms(2), of "noteBuffer c"]
  by (simp add: onResult_note Let_def finalTxt_of_def detect_events_of_events
                after_detect_state emitStopNote_def)

lemma note_example:
  "noteMode ((new_controller [])\<lparr>noteMode := True, noteBuffer := ''first''\<rparr>)"
  "fst (collect [final_slot ''Mute'']) \<noteq> []"
  "fst (collect [final_slot ''create'']) \<noteq> []"
  "finalTxt_of [final_slot ''Mute''] = ''Mute''"
  "finalTxt_of [final_slot ''create''] = ''create''"
  "\<not> re_test False re_create (toLowerCase ''Mute'')"
  "re_test False re_create (toLowerCase ''create'')"
  "append_sp ''first'' ''Mute'' = ''first Mute''"
  "trim (append_sp ''first'' ''create'') = ''first create''"
  by code_simp+

theorem note_mode_override_witness:
  "noteMode ((new_controller [])\<lparr>noteMode := True, noteBuffer := ''first''\<rparr>)
   \<and> fst (collect [final_slot ''Mute'']) \<noteq> []
   \<and> \<not> re_test False re_create (toLowerCase (finalTxt_of [final_slot ''Mute'']))
   \<and> commands_of (snd (onResult 0 [final_slot ''Mute'']
                          ((new_controller [])\<lparr>noteMode := True, noteBuffer := ''first''\<rparr>))) = []
   \<and> transcripts_of (snd (onResult 0 [final_slot ''Mute'']
                          ((new_controller [])\<lparr>noteMode := True, noteBuffer := ''first''\<rparr>)))
       = [(''Mute'', True)]
   \<and> noteBuffer (fst (onResult 0 [final_slot ''Mute'']
                          ((new_controller [])\<lparr>noteMode := True, noteBuffer := ''first''\<rparr>)))
       = ''first Mute''
   \<and> fst (collect [final_slot ''create'']) \<noteq> []
   \<and> re_test False re_create (toLowerCase (finalTxt_of [final_slot ''create'']))
   \<and> commands_of (snd (onResult 0 [final_slot ''create'']
                          ((new_controller [])\<lparr>noteMode := True, noteBuffer := ''first''\<rparr>)))
       = [(''stop_note'', ''create'')]
   \<and> transcripts_of (snd (onResult 0 [final_slot ''create'']
                          ((new_controller [])\<lparr>noteMode := True, noteBuffer := ''first''\<rparr>)))
       = [(''create'', True), (''first create'', True)]"
  using note_mode_override [OF note_example(1) note_example(2), of 0]
        note_mode_override [OF note_example(1) note_example(3), of 0]
        note_example
  by simp

section \<open>Ending an empty note\<close>

text \<open>
  The final text of a callback begins and ends with a character that is not white
  space, so trimming leaves it as it is, also behind a buffer of white space.
\<close>

lemma trim_leading: "\<forall>c\<in>set sp. is_space c \<Longrightarrow> trim (sp @ s) = trim s"
  by (simp add: trim_def dropWhile_append2)

lemma trim_fixed:
  assumes "s \<noteq> []" "\<not> is_space (hd s)" "\<not> is_space (last s)"
  shows "trim s = s"
proof -
  from assms(1,2) have 1: "dropWhile is_space s = s" by (cases s) simp_all
  from assms(1,3) have "\<not> is_space (hd (rev s))" by (simp add: hd_rev)
  with assms(1) have 2: "dropWhile is_space (rev s) = rev s" by (cases "rev s") simp_all
  from 1 2 show ?thesis by (simp add: trim_def)
qed

lemma last_dropWhile: "dropWhile P ys \<noteq> [] \<Longrightarrow> last (dropWhile P ys) = last ys"
  by (induction ys) (auto split: if_splits)

lemma trim_ends:
  assumes "trim s \<noteq> []"
  shows "\<not> is_space (hd (trim s))" "\<not> is_space (last (trim s))"
proof -
  let ?d = "dropWhile is_space s"
  let ?X = "dropWhile is_space (rev ?d)"
  from assms have X: "?X \<noteq> []" by (simp add: trim_def)
  then have d: "?d \<noteq> []" by (auto dest: set_dropWhileD)
  from X have "\<not> is_space (hd ?X)" by (rule hd_dropWhile)
  with X show "\<not> is_space (last (trim s))" by (simp add: trim_def last_rev)
  from d have "\<not> is_space (hd ?d)" by (rule hd_dropWhile)
  moreover from X have "last ?X = last (rev ?d)" by (rule last_dropWhile)
  moreover from d have "last (rev ?d) = hd ?d" by (simp add: last_rev)
  ultimately show "\<not> is_space (hd (trim s))" using X by (simp add: trim_def hd_rev)
qed

lemma join_sp_ends:
  "xs \<noteq> [] \<Longrightarrow> \<forall>x\<in>set xs. x \<noteq> [] \<Longrightarrow>
     join_sp xs \<noteq> [] \<and> hd (join_sp xs) = hd (hd xs) \<and> last (join_sp xs) = last (last xs)"
  by (induction xs rule: join_sp.induct) auto

lemma kept_texts_ends:
  "t \<in> set (kept_texts slots) \<Longrightarrow> t \<noteq> [] \<and> \<not> is_space (hd t) \<and> \<not> is_space (last t)"
  using trim_ends by (auto simp: kept_texts_def slot_text_def)

lemma trim_finalTxt:
  assumes "fst (collect rs) \<noteq> []"
  shows "trim (join_sp (fst (collect rs))) = join_sp (fst (collect rs))"
proof -
  let ?ts = "fst (collect rs)"
  have all: "\<forall>t\<in>set ?ts. t \<noteq> [] \<and> \<not> is_space (hd t) \<and> \<not> is_space (last t)"
    using kept_texts_ends by (simp add: collect_fst)
  from assms have "hd ?ts \<in> set ?ts" "last ?ts \<in> set ?ts" by simp_all
  with all have e: "\<not> is_space (hd (hd ?ts))" "\<not> is_space (last (last ?ts))" by blast+
  from join_sp_ends[OF assms] all
  have "join_sp ?ts \<noteq> []" "hd (join_sp ?ts) = hd (hd ?ts)" "last (join_sp ?ts) = last (last ?ts)"
    by blast+
  with e show ?thesis by (intro trim_fixed) simp_all
qed

lemma note_after_empty_buffer:
  assumes "trim buf = []" "fst (collect rs) \<noteq> []"
  shows "trim (append_sp buf (join_sp (fst (collect rs)))) = join_sp (fst (collect rs))"
proof -
  from assms(1) have sp: "\<forall>c\<in>set (buf @ (if buf \<noteq> [] then '' '' else [])). is_space c"
    by (auto simp: trim_eq_Nil is_space_def)
  have "append_sp buf (join_sp (fst (collect rs)))
          = (buf @ (if buf \<noteq> [] then '' '' else [])) @ join_sp (fst (collect rs))"
    by (simp add: append_sp_def)
  then show ?thesis using trim_leading[OF sp] trim_finalTxt[OF assms(2)] by simp
qed

text \<open>
  Claim C10, as stated, fails on the "create" path. \<open>_onResult\<close> appends the utterance
  to the note buffer before it tests the utterance for "create", so the note that
  \<open>_emitStopNote\<close> reads there is never empty. A note that is started and ended at
  once: after "note" the controller is in note mode with an empty buffer, and the
  utterance "create" gives \<open>onTranscript('create', true)\<close> for the utterance,
  \<open>onTranscript('create', true)\<close> again for the note, and
  \<open>onCommand('stop_note', 'create')\<close>.
\<close>

theorem empty_note_counterexample:
  "noteMode (fst (onResult 0 [final_slot ''note''] (new_controller [])))
   \<and> trim (noteBuffer (fst (onResult 0 [final_slot ''note''] (new_controller [])))) = []
   \<and> snd (onResult 1000 [final_slot ''create'']
             (fst (onResult 0 [final_slot ''note''] (new_controller []))))
       = [OnTranscript ''create'' True, OnTranscript ''create'' True,
          OnCommand ''stop_note'' ''create'']"
  by code_simp

text \<open>
  Claim C10, amended. In note mode with a buffer that trims to the empty text:
  \<open>_emitStopNote\<close> emits \<open>onCommand('stop_note', 'create')\<close> alone, without an
  \<open>onTranscript\<close>, leaves note mode and empties the buffer, and \<open>stop()\<close> on a
  controller with a recognizer reaches it after \<open>onListenStateChange(false)\<close>. A
  callback whose final text passes \<^verbatim>\<open>/\bcreate\b/\<close> ends the note too, with the same
  command and the same reset, but the note is then that final text: \<open>onTranscript\<close> is
  called with it twice, once for the utterance and once for the note.
\<close>

theorem empty_note_emits_no_transcript:
  "noteMode c \<Longrightarrow> trim (noteBuffer c) = [] \<Longrightarrow>
     emitStopNote c = (c\<lparr>noteMode := False, noteBuffer := []\<rparr>, [OnCommand ''stop_note'' ''create''])
     \<and> (rec_set c \<longrightarrow>
          stop c = (c\<lparr>listening := False, noteMode := False, noteBuffer := []\<rparr>,
                    [OnListenStateChange False, OnCommand ''stop_note'' ''create'']))
     \<and> (fst (collect results) \<noteq> [] \<and> re_test False re_create (toLowerCase (finalTxt_of results)) \<longrightarrow>
          commands_of (snd (onResult now results c)) = [(''stop_note'', ''create'')]
        \<and> transcripts_of (snd (onResult now results c))
            = [(finalTxt_of results, True), (finalTxt_of results, True)]
        \<and> finalTxt_of results \<noteq> []
        \<and> \<not> noteMode (fst (onResult now results c))
        \<and> noteBuffer (fst (onResult now results c)) = [])"
proof (intro conjI impI)
  assume c: "noteMode c" "trim (noteBuffer c) = []"
  show "emitStopNote c = (c\<lparr>noteMode := False, noteBuffer := []\<rparr>, [OnCommand ''stop_note'' ''create''])"
    using c by (simp add: emitStopNote_def)
  show "stop c = (c\<lparr>listening := False, noteMode := False, noteBuffer := []\<rparr>,
                    [OnListenStateChange False, OnCommand ''stop_note'' ''create''])"
    if "rec_set c" using c that by (simp add: stop_def emitStopNote_def)
  assume r: "fst (collect results) \<noteq> [] \<and> re_test False re_create (toLowerCase (finalTxt_of results))"
  then have r1: "fst (collect results) \<noteq> []"
      and r2: "re_test False re_create (toLowerCase (join_sp (fst (collect results))))"
    by (simp_all add: finalTxt_of_def)
  have nt: "trim (append_sp (noteBuffer c) (join_sp (fst (collect results))))
                = join_sp (fst (collect results))"
    by (rule note_after_empty_buffer[OF c(2) r1])
  have ne: "join_sp (fst (collect results)) \<noteq> []"
    using join_sp_eq_Nil[of "fst (collect results)"] kept_texts_nonempty[of "filter isFinal results"] r1
    by (simp add: collect_fst)
  show "finalTxt_of results \<noteq> []" using ne by (simp add: finalTxt_of_def)
  show "commands_of (snd (onResult now results c)) = [(''stop_note'', ''create'')]"
    using c(1) r2 nt ne
    by (simp add: onResult_note[OF r1 c(1)] Let_def detect_events_of_events after_detect_state
                  emitStopNote_def)
  show "transcripts_of (snd (onResult now results c))
            = [(finalTxt_of results, True), (finalTxt_of results, True)]"
    using c(1) r2 nt ne
    by (simp add: onResult_note[OF r1 c(1)] Let_def detect_events_of_events after_detect_state
                  emitStopNote_def finalTxt_of_def)
  show "\<not> noteMode (fst (onResult now results c))"
    using c(1) r2
    by (simp add: onResult_note[OF r1 c(1)] Let_def after_detect_state emitStopNote_def)
  show "noteBuffer (fst (onResult now results c)) = []"
    using c(1) r2
    by (simp add: onResult_note[OF r1 c(1)] Let_def after_detect_state emitStopNote_def)
qed

lemma empty_note_example:
  "fst (collect [final_slot ''create'']) \<noteq> []"
  "re_test False re_create (toLowerCase (finalTxt_of [final_slot ''create'']))"
  "finalTxt_of [final_slot ''create''] = ''create''"
  by code_simp+

theorem empty_note_emits_no_transcript_witness:
  "noteMode (fst (emitStartNote ((new_controller [])\<lparr>rec_set := True, listening := True\<rparr>)))
   \<and> trim (noteBuffer (fst (emitStartNote ((new_controller [])\<lparr>rec_set := True, listening := True\<rparr>)))) = []
   \<and> snd (emitStopNote (fst (emitStartNote ((new_controller [])\<lparr>rec_set := True, listening := True\<rparr>))))
       = [OnCommand ''stop_note'' ''create'']
   \<and> snd (stop (fst (emitStartNote ((new_controller [])\<lparr>rec_set := True, listening := True\<rparr>))))
       = [OnListenStateChange False, OnCommand ''stop_note'' ''create'']
   \<and> fst (collect [final_slot ''create'']) \<noteq> []
   \<and> re_test False re_create (toLowerCase (finalTxt_of [final_slot ''create'']))
   \<and> commands_of (snd (onResult 0 [final_slot ''create'']
         (fst (emitStartNote ((new_controller [])\<lparr>rec_set := True, listening := True\<rparr>)))))
       = [(''stop_note'', ''create'')]
   \<and> transcripts_of (snd (onResult 0 [final_slot ''create'']
         (fst (emitStartNote ((new_controller [])\<lparr>rec_set := True, listening := True\<rparr>)))))
       = [(''create'', True), (''create'', True)]"
  using empty_note_emits_no_transcript
          [of "fst (emitStartNote ((new_controller [])\<lparr>rec_set := True, listening := True\<rparr>))"
              "[final_slot ''create'']" 0]
        empty_note_example
  by (simp add: emitStartNote_def new_controller_def trim_def)

section \<open>Characters, literals and containment\<close>

lemma starts_with_prefix: "starts_with s w = prefix w s"
  by (induction s w rule: starts_with.induct) auto

lemma str_includes_sublist: "str_includes s w = sublist w s"
  by (induction s) (auto simp: starts_with_prefix sublist_Cons_right)

lemma to_upper_is_upper:
  assumes "is_upper (to_upper_ch x)" shows "is_upper x \<or> is_lower x"
proof (cases x)
  case (Char b0 b1 b2 b3 b4 b5 b6 b7)
  with assms show ?thesis
    by (cases b5; cases b6; cases b7; cases b4; cases b3)
       (simp_all add: to_upper_ch_def is_upper_def is_lower_def Let_def of_bool_def split: if_splits)
qed

lemma lower_to_upper:
  assumes "is_lower a" shows "is_upper (to_upper_ch a)"
proof (cases a)
  case (Char b0 b1 b2 b3 b4 b5 b6 b7)
  with assms show ?thesis
    by (cases b5; cases b6; cases b7; cases b4; cases b3)
       (simp_all add: to_upper_ch_def is_upper_def is_lower_def Let_def of_bool_def split: if_splits)
qed

lemma ch_eq_lower_word: "is_lower a \<Longrightarrow> ch_eq ic a x \<Longrightarrow> is_word x"
  using to_upper_is_upper[of x] lower_to_upper[of a]
  by (auto simp: ch_eq_def is_word_def)

lemma ms_lit:
  "cs \<noteq> [] \<Longrightarrow> st' \<in> set (ms ic (lit cs) st) \<Longrightarrow>
     \<exists>m. st_rest st = m @ st_rest st' \<and> list_all2 (ch_eq ic) cs m \<and> fst st' = Some (last m)"
proof (induction cs arbitrary: st)
  case Nil
  then show ?case by simp
next
  case (Cons a cs)
  show ?case
  proof (cases cs)
    case Nil
    with Cons.prems show ?thesis
      by (cases "st_rest st") (auto simp: lit_def st_rest_def split: if_splits)
  next
    case (Cons b cs')
    then have "lit (a # cs) = Seq (Chr a) (lit cs)" by (simp add: lit_def)
    with Cons.prems(2) have "st' \<in> set (ms ic (Seq (Chr a) (lit cs)) st)" by simp
    then have "\<exists>st1\<in>set (ms ic (Chr a) st). st' \<in> set (ms ic (lit cs) st1)"
      by (simp del: ms.simps add: ms.simps(8))
    then obtain st1 where st1: "st1 \<in> set (ms ic (Chr a) st)"
        and st': "st' \<in> set (ms ic (lit cs) st1)"
      by blast
    from st1 obtain x xs where x: "st_rest st = x # xs" "ch_eq ic a x" "st_rest st1 = xs"
      by (cases "st_rest st") (auto simp: st_rest_def split: if_splits)
    from Cons.IH[OF _ st'] Cons obtain m where
      m: "st_rest st1 = m @ st_rest st'" "list_all2 (ch_eq ic) cs m" "fst st' = Some (last m)"
      by auto
    from m(2) Cons have "m \<noteq> []" by auto
    with x m have "st_rest st = (x # m) @ st_rest st' \<and> list_all2 (ch_eq ic) (a # cs) (x # m)
                   \<and> fst st' = Some (last (x # m))" by simp
    then show ?thesis by blast
  qed
qed

section \<open>What MRN detection returns\<close>

lemma ms_suffix: "st' \<in> set (ms ic r st) \<Longrightarrow> suffix (st_rest st') (st_rest st)"
proof (induction ic r st arbitrary: st' rule: ms.induct)
  case (1 ic st)
  then show ?case by simp
next
  case (2 ic a st)
  then show ?case by (cases "st_rest st") (auto simp: st_rest_def suffix_Cons split: if_splits)
next
  case (3 ic as st)
  then show ?case by (cases "st_rest st") (auto simp: st_rest_def suffix_Cons split: if_splits)
next
  case (4 ic st)
  then show ?case by (cases "st_rest st") (auto simp: st_rest_def suffix_Cons split: if_splits)
next
  case (5 ic st)
  then show ?case by (simp split: if_splits)
next
  case (6 ic st)
  then show ?case by (simp split: if_splits)
next
  case (7 ic st)
  then show ?case by (simp split: if_splits)
next
  case (8 ic a b st)
  from "8.prems" obtain st1 where a: "st1 \<in> set (ms ic a st)" and b: "st' \<in> set (ms ic b st1)"
    by auto
  from "8.IH"(1)[OF a] "8.IH"(2)[OF a b] show ?case by (rule suffix_order.trans[rotated])
next
  case (9 ic a b st)
  from "9.prems" have "st' \<in> set (ms ic a st) \<or> st' \<in> set (ms ic b st)" by simp
  then show ?case using "9.IH"[of st'] by auto
next
  case (10 ic r st)
  from "10.prems" have "st' = st \<or> (\<exists>st1 \<in> set (ms ic r st).
         length (st_rest st1) < length (st_rest st) \<and> st' \<in> set (ms ic (Star r) st1))"
    by (subst (asm) ms.simps(10)) (auto split: if_splits)
  then show ?case
  proof
    assume "st' = st" then show ?thesis by simp
  next
    assume "\<exists>st1 \<in> set (ms ic r st).
         length (st_rest st1) < length (st_rest st) \<and> st' \<in> set (ms ic (Star r) st1)"
    then obtain st1 where 2: "st1 \<in> set (ms ic r st)" "length (st_rest st1) < length (st_rest st)"
                "st' \<in> set (ms ic (Star r) st1)" by blast
    from "10.IH"(1)[OF 2(1)] "10.IH"(2)[OF 2(1) 2(2) 2(3)]
    show ?thesis by (rule suffix_order.trans[rotated])
  qed
next
  case (11 ic r st)
  from "11.prems" have "st' = st \<or> st' \<in> set (ms ic r st)" by auto
  then show ?case using "11.IH"[of st'] by auto
next
  case (12 ic r st)
  from "12.prems" obtain st1 where "st1 \<in> set (ms ic r st)" "st_rest st' = st_rest st1"
    by (auto simp: st_rest_def)
  with "12.IH"[of st1] show ?case by simp
qed

lemma ms_needs:
  "needs C ic r \<Longrightarrow> \<forall>c\<in>set (st_rest st). \<not> C c \<Longrightarrow> ms ic r st = []"
proof (induction r arbitrary: st)
  case (Chr a)
  then show ?case by (cases "st_rest st") auto
next
  case (Cls as)
  then show ?case by (cases "st_rest st") auto
next
  case (Seq a b)
  show ?case
  proof (cases "needs C ic a")
    case True
    with Seq show ?thesis by simp
  next
    case False
    with Seq.prems have nb: "needs C ic b" by simp
    have "ms ic b st1 = []" if "st1 \<in> set (ms ic a st)" for st1
    proof -
      from ms_suffix[OF that] have "set (st_rest st1) \<subseteq> set (st_rest st)"
        by (rule set_mono_suffix)
      with Seq.prems(2) have "\<forall>c\<in>set (st_rest st1). \<not> C c" by blast
      with Seq.IH(2)[OF nb] show ?thesis by blast
    qed
    then show ?thesis by simp
  qed
next
  case (Alt a b)
  then show ?case by simp
next
  case (Grp r)
  then show ?case by simp
qed simp_all

lemma re_exec_from_needs:
  "needs C ic r \<Longrightarrow> \<forall>c\<in>set s. \<not> C c \<Longrightarrow> re_exec_from ic r p s = None"
proof (induction s arbitrary: p)
  case Nil
  then have "ms ic r (p, [], None) = []" by (intro ms_needs) (auto simp: st_rest_def)
  then show ?case by (simp add: re_exec_from.simps[of _ _ _ "[]"])
next
  case (Cons x xs)
  then have "ms ic r (p, x # xs, None) = []" by (intro ms_needs) (auto simp: st_rest_def)
  with Cons show ?case by (simp add: re_exec_from.simps[of _ _ _ "x # xs"])
qed

lemma try_patterns_needs:
  "\<forall>(ic, r)\<in>set ps. needs C ic r \<Longrightarrow> \<forall>c\<in>set u. \<not> C c \<Longrightarrow> try_patterns ps u = None"
  by (induction ps u rule: try_patterns.induct) (auto simp: re_exec_def re_exec_from_needs)

lemma to_upper_ch_M: "to_upper_ch x = CHR ''M'' \<Longrightarrow> x = CHR ''M'' \<or> x = CHR ''m''"
  by (cases x) (auto simp: to_upper_ch_def Let_def split: if_splits)

lemma ch_eq_M: "ch_eq ic (CHR ''M'') x \<Longrightarrow> x = CHR ''M'' \<or> x = CHR ''m''"
  using to_upper_ch_M[of x] by (auto simp: ch_eq_def to_upper_ch_def)

lemma cls_AZ_upper: "cls_mem False [CRange (CHR ''A'') (CHR ''Z'')] x \<Longrightarrow> is_upper x"
  by (simp add: cls_mem_def in_range_def is_upper_def)

lemma needs_M: "needs mrn_trigger ic (Chr (CHR ''M''))"
  by (auto simp: mrn_trigger_def is_upper_def dest!: ch_eq_M)

lemma needs_AZ: "needs mrn_trigger False cls_AZ"
  by (auto simp: mrn_trigger_def cls_AZ_def dest: cls_AZ_upper)

lemma needs_Mm: "needs mrn_trigger False (Cls [CChar (CHR ''M''), CChar (CHR ''m'')])"
  by (auto simp: mrn_trigger_def cls_mem_def ch_eq_def is_upper_def)

lemma mrn_patterns_need:
  "\<forall>(ic, r)\<in>set mrn_patterns. needs mrn_trigger ic r"
  using needs_M[of True] needs_AZ needs_Mm
  by (simp add: mrn_patterns_def mrn_pattern1_def mrn_pattern2_def mrn_pattern3_def
                mrn_pattern4_def mrn_pattern5_def lit_def numeral_2_eq_2 numeral_3_eq_3)

lemma detectMRN_needs_trigger:
  "\<forall>c\<in>set u. \<not> mrn_trigger c \<Longrightarrow> detectMRN u = None"
  by (simp add: detectMRN_def try_patterns_needs[OF mrn_patterns_need])

lemma replace_all_from_needs:
  "needs C ic r \<Longrightarrow> \<forall>c\<in>set s. \<not> C c \<Longrightarrow> replace_all_from ic r rep p s = s"
proof (induction s arbitrary: p)
  case Nil
  then have "ms ic r (p, [], None) = []" by (intro ms_needs) (auto simp: st_rest_def)
  then show ?case by (simp add: replace_all_from.simps[of _ _ _ _ "[]"])
next
  case (Cons x xs)
  then have "ms ic r (p, x # xs, None) = []" by (intro ms_needs) (auto simp: st_rest_def)
  with Cons show ?case by (simp add: replace_all_from.simps[of _ _ _ _ "x # xs"])
qed

lemma digit_facts:
  "is_digit c \<Longrightarrow> \<not> is_space c"
  "is_digit c \<Longrightarrow> c \<noteq> CHR ''-''"
  "is_digit c \<Longrightarrow> to_upper_ch c = c"
  "is_digit c \<Longrightarrow> \<not> is_upper c"
  by (auto simp: is_digit_def is_space_def to_upper_ch_def is_upper_def Let_def)

lemma needs_space: "needs is_space False (Plus cls_s)"
  by (simp add: Plus_def cls_s_def cls_mem_def)

lemma needs_hyphen: "needs (\<lambda>c. c = CHR ''-'') False (Chr (CHR ''-''))"
  by (simp add: ch_eq_def)




lemma re_test_cls_d_iff: "(re_exec_from False cls_d p s \<noteq> None) = (\<exists>c\<in>set s. is_digit c)"
proof (induction s arbitrary: p)
  case Nil then show ?case by (simp add: re_exec_from.simps[of _ _ _ "[]"] cls_d_def st_rest_def)
next
  case (Cons x xs)
  show ?case
  proof (cases "is_digit x")
    case True
    then have "ms False cls_d (p, x # xs, None) = [(Some x, xs, None)]"
      by (simp add: cls_d_def st_rest_def cls_mem_def)
    with True show ?thesis by (simp add: re_exec_from.simps[of _ _ _ "x # xs"])
  next
    case False
    then have "ms False cls_d (p, x # xs, None) = []"
      by (simp add: cls_d_def st_rest_def cls_mem_def)
    with False Cons show ?thesis by (simp add: re_exec_from.simps[of _ _ _ "x # xs"])
  qed
qed

lemma re_test_cls_AZ_iff: "(re_exec_from False cls_AZ p s \<noteq> None) = (\<exists>c\<in>set s. is_upper c)"
proof (induction s arbitrary: p)
  case Nil then show ?case by (simp add: re_exec_from.simps[of _ _ _ "[]"] cls_AZ_def st_rest_def)
next
  case (Cons x xs)
  show ?case
  proof (cases "is_upper x")
    case True
    then have "ms False cls_AZ (p, x # xs, None) = [(Some x, xs, None)]"
      by (simp add: cls_AZ_def st_rest_def cls_mem_def in_range_def is_upper_def Let_def)
    with True show ?thesis by (simp add: re_exec_from.simps[of _ _ _ "x # xs"])
  next
    case False
    then have "ms False cls_AZ (p, x # xs, None) = []"
      by (simp add: cls_AZ_def st_rest_def cls_mem_def in_range_def is_upper_def Let_def)
    with False Cons show ?thesis by (simp add: re_exec_from.simps[of _ _ _ "x # xs"])
  qed
qed

lemma looks_like_mrn_iff:
  "looks_like_mrn mrn = ((\<exists>c\<in>set mrn. is_upper c) \<and> (\<exists>c\<in>set mrn. is_digit c))"
  using re_test_cls_d_iff[of None mrn] re_test_cls_AZ_iff[of None mrn]
  by (simp add: looks_like_mrn_def re_test_def re_exec_def)


lemma try_patterns_valid: "try_patterns ps u = Some mrn \<Longrightarrow> looks_like_mrn mrn"
  by (induction ps u rule: try_patterns.induct) (auto split: option.splits if_splits)

lemma detectMRN_valid: "detectMRN u = Some mrn \<Longrightarrow> looks_like_mrn mrn"
  by (auto simp: detectMRN_def split: if_splits dest: try_patterns_valid)

lemma detectMRN_not_empty: "detectMRN u = Some mrn \<Longrightarrow> mrn \<noteq> [] \<and> u \<noteq> []"
  using detectMRN_valid[of u mrn] by (auto simp: looks_like_mrn_iff detectMRN_def split: if_splits)

lemma detectTemplate_text: "detectTemplate ts u = Some t \<Longrightarrow> u \<noteq> []"
  by (auto simp: detectTemplate_def split: if_splits)

subsection \<open>What a match has read\<close>

lemma reaches_refl: "reaches st [] st"
  by (simp add: reaches_def)

lemma reaches_trans: "reaches st m1 st1 \<Longrightarrow> reaches st1 m2 st2 \<Longrightarrow> reaches st (m1 @ m2) st2"
  by (auto simp: reaches_def)

lemma seq_mem:
  "(st' \<in> set (ms ic (Seq a b) st)) = (\<exists>st1\<in>set (ms ic a st). st' \<in> set (ms ic b st1))"
  by auto

lemma star_mem:
  "(st' \<in> set (ms ic (Star r) st)) =
     (st' = st \<or> (\<exists>st1\<in>set (ms ic r st). length (st_rest st1) < length (st_rest st)
                     \<and> st' \<in> set (ms ic (Star r) st1)))"
  by (subst ms.simps(10)) (auto split: if_splits)

lemma ms_consumed: "st' \<in> set (ms ic r st) \<Longrightarrow> \<exists>m. reaches st m st'"
proof (induction ic r st arbitrary: st' rule: ms.induct)
  case (1 ic st)
  then show ?case by (auto intro: reaches_refl)
next
  case (2 ic a st)
  show ?case
  proof (cases "st_rest st")
    case Nil
    with "2.prems" show ?thesis by simp
  next
    case (Cons x xs)
    with "2.prems" have "reaches st [x] st'"
      by (auto simp: reaches_def st_rest_def split: if_splits)
    then show ?thesis by blast
  qed
next
  case (3 ic as st)
  show ?case
  proof (cases "st_rest st")
    case Nil
    with "3.prems" show ?thesis by simp
  next
    case (Cons x xs)
    with "3.prems" have "reaches st [x] st'"
      by (auto simp: reaches_def st_rest_def split: if_splits)
    then show ?thesis by blast
  qed
next
  case (4 ic st)
  show ?case
  proof (cases "st_rest st")
    case Nil
    with "4.prems" show ?thesis by simp
  next
    case (Cons x xs)
    with "4.prems" have "reaches st [x] st'"
      by (auto simp: reaches_def st_rest_def split: if_splits)
    then show ?thesis by blast
  qed
next
  case (5 ic st)
  then show ?case by (auto intro: reaches_refl split: if_splits)
next
  case (6 ic st)
  then show ?case by (auto intro: reaches_refl split: if_splits)
next
  case (7 ic st)
  then show ?case by (auto intro: reaches_refl split: if_splits)
next
  case (8 ic a b st)
  from "8.prems" obtain st1 where a: "st1 \<in> set (ms ic a st)" and b: "st' \<in> set (ms ic b st1)"
    by (auto simp: seq_mem)
  from "8.IH"(1)[OF a] "8.IH"(2)[OF a b] show ?case by (blast intro: reaches_trans)
next
  case (9 ic a b st)
  from "9.prems" have "st' \<in> set (ms ic a st) \<or> st' \<in> set (ms ic b st)" by simp
  then show ?case using "9.IH"[of st'] by blast
next
  case (10 ic r st)
  from "10.prems" have "st' = st \<or> (\<exists>st1 \<in> set (ms ic r st).
         length (st_rest st1) < length (st_rest st) \<and> st' \<in> set (ms ic (Star r) st1))"
    using star_mem[of st' ic r st] by blast
  then show ?case
  proof
    assume "st' = st" then show ?thesis using reaches_refl[of st] by blast
  next
    assume "\<exists>st1 \<in> set (ms ic r st).
         length (st_rest st1) < length (st_rest st) \<and> st' \<in> set (ms ic (Star r) st1)"
    then obtain st1 where 2: "st1 \<in> set (ms ic r st)" "length (st_rest st1) < length (st_rest st)"
                "st' \<in> set (ms ic (Star r) st1)" by blast
    from "10.IH"(1)[OF 2(1)] "10.IH"(2)[OF 2(1) 2(2) 2(3)]
    show ?thesis by (blast intro: reaches_trans)
  qed
next
  case (11 ic r st)
  from "11.prems" have "st' = st \<or> st' \<in> set (ms ic r st)" by auto
  then show ?case using "11.IH"[of st'] reaches_refl[of st] by blast
next
  case (12 ic r st)
  from "12.prems" obtain st1 where st1: "st1 \<in> set (ms ic r st)"
     "st_rest st' = st_rest st1" "fst st' = fst st1"
    by (auto simp: st_rest_def)
  from "12.IH"[OF st1(1)] obtain m where "reaches st m st1" by blast
  with st1 have "reaches st m st'" by (simp add: reaches_def)
  then show ?case by blast
qed

text \<open>
  \<open>exec\<close> scans the start positions from the left: it finds a match when the pattern
  matches at some position, and what it returns is the first match at the first such
  position.
\<close>

lemma re_exec_from_found:
  "ms ic r ((if a = [] then p else Some (last a)), b, None) \<noteq> []
     \<Longrightarrow> re_exec_from ic r p (a @ b) \<noteq> None"
proof (induction a arbitrary: p)
  case Nil
  then show ?case by (auto simp: re_exec_from.simps[of _ _ _ b] split: list.splits)
next
  case (Cons x xs)
  have q: "(if xs = [] then Some x else Some (last xs)) = (if x # xs = [] then p else Some (last (x # xs)))"
    by simp
  from Cons.prems have "ms ic r ((if xs = [] then Some x else Some (last xs)), b, None) \<noteq> []"
    unfolding q .
  from Cons.IH[OF this] show ?case
    by (auto simp: re_exec_from.simps[of _ _ _ "x # xs @ b"] split: list.splits)
qed


lemma re_exec_from_implied:
  assumes imp: "\<And>q b. ms ic r (q, b, None) \<noteq> [] \<Longrightarrow>
            \<exists>a' b'. b = a' @ b' \<and> ms ic' k ((if a' = [] then q else Some (last a')), b', None) \<noteq> []"
  shows "re_exec_from ic' k p s = None \<Longrightarrow> re_exec_from ic r p s = None"
proof (induction s arbitrary: p)
  case Nil
  have "ms ic r (p, [], None) = []"
  proof (rule ccontr)
    assume "ms ic r (p, [], None) \<noteq> []"
    from imp[OF this] have "ms ic' k (p, [], None) \<noteq> []" by auto
    with Nil show False by (auto simp: re_exec_from.simps[of _ _ _ "[]"] split: list.splits)
  qed
  then show ?case by (simp add: re_exec_from.simps[of _ _ _ "[]"])
next
  case (Cons x xs)
  have "ms ic r (p, x # xs, None) = []"
  proof (rule ccontr)
    assume "ms ic r (p, x # xs, None) \<noteq> []"
    from imp[OF this] obtain a' b' where "x # xs = a' @ b'"
      "ms ic' k ((if a' = [] then p else Some (last a')), b', None) \<noteq> []" by blast
    with re_exec_from_found[of ic' k a' p b'] Cons.prems show False by simp
  qed
  moreover from Cons.prems have "re_exec_from ic' k (Some x) xs = None"
    by (auto simp: re_exec_from.simps[of _ _ _ "x # xs"] split: list.splits)
  ultimately show ?case using Cons.IH by (simp add: re_exec_from.simps[of _ _ _ "x # xs"])
qed

subsection \<open>The keyword in the first four patterns\<close>

lemma to_upper_ch_R: "to_upper_ch x = CHR ''R'' \<Longrightarrow> x = CHR ''R'' \<or> x = CHR ''r''"
  by (cases x) (auto simp: to_upper_ch_def Let_def split: if_splits)

lemma to_upper_ch_N: "to_upper_ch x = CHR ''N'' \<Longrightarrow> x = CHR ''N'' \<or> x = CHR ''n''"
  by (cases x) (auto simp: to_upper_ch_def Let_def split: if_splits)

lemma ch_eq_R: "ch_eq ic (CHR ''R'') x \<Longrightarrow> x = CHR ''R'' \<or> x = CHR ''r''"
  using to_upper_ch_R[of x] by (auto simp: ch_eq_def to_upper_ch_def)

lemma ch_eq_N: "ch_eq ic (CHR ''N'') x \<Longrightarrow> x = CHR ''N'' \<or> x = CHR ''n''"
  using to_upper_ch_N[of x] by (auto simp: ch_eq_def to_upper_ch_def)

lemma star_self: "st \<in> set (ms ic (Star r) st)"
  by (subst star_mem) simp

lemma ne_mem: "(xs \<noteq> []) = (\<exists>x. x \<in> set xs)"
  by (cases xs) auto

lemma keyword_match:
  assumes "\<not> word_opt q"
      and "x1 = CHR ''M'' \<or> x1 = CHR ''m''"
      and "x2 = CHR ''R'' \<or> x2 = CHR ''r''"
      and "x3 = CHR ''N'' \<or> x3 = CHR ''n''"
  shows "ms False mrn_keyword (q, x1 # x2 # x3 # rest, None) \<noteq> []"
proof -
  let ?st = "(q, x1 # x2 # x3 # rest, None)"
  let ?st1 = "(Some x1, x2 # x3 # rest, None :: string option)"
  let ?st2 = "(Some x2, x3 # rest, None :: string option)"
  let ?st3 = "(Some x3, rest, None :: string option)"
  from assms(2) have w: "is_word x1" by (auto simp: is_word_def is_upper_def is_lower_def)
  have 0: "?st \<in> set (ms False WordB ?st)"
    using assms(1) w by (simp add: word_opt_def next_ch_def st_rest_def)
  have 1: "?st1 \<in> set (ms False (Cls [CChar (CHR ''M''), CChar (CHR ''m'')]) ?st)"
    using assms(2) by (auto simp: st_rest_def cls_mem_def ch_eq_def)
  have 2: "?st2 \<in> set (ms False (Cls [CChar (CHR ''R''), CChar (CHR ''r'')]) ?st1)"
    using assms(3) by (auto simp: st_rest_def cls_mem_def ch_eq_def)
  have 3: "?st3 \<in> set (ms False (Cls [CChar (CHR ''N''), CChar (CHR ''n'')]) ?st2)"
    using assms(4) by (auto simp: st_rest_def cls_mem_def ch_eq_def)
  have "?st3 \<in> set (ms False mrn_keyword ?st)"
    unfolding mrn_keyword_def cat.simps seq_mem
    using 0 1 2 3 star_self[of ?st1 False cls_s] star_self[of ?st2 False cls_s] by blast
  then show ?thesis by auto
qed

lemma keyword_from_MRN:
  assumes "ms True (Seq WordB (Seq (lit ''MRN'') r)) (q, b, None) \<noteq> []"
  shows "ms False mrn_keyword (q, b, None) \<noteq> []"
proof -
  from assms obtain st' where "st' \<in> set (ms True (Seq WordB (Seq (lit ''MRN'') r)) (q, b, None))"
    by (auto simp only: ne_mem)
  then obtain st0 st1 where st0: "st0 \<in> set (ms True WordB (q, b, None))"
      and st1: "st1 \<in> set (ms True (lit ''MRN'') st0)"
    unfolding seq_mem by blast
  from st0 have eq: "st0 = (q, b, None)" and wb: "word_opt q \<noteq> word_opt (next_ch b)"
    by (auto simp: st_rest_def split: if_splits)
  from ms_lit[OF _ st1] obtain m where m: "st_rest st0 = m @ st_rest st1"
      "list_all2 (ch_eq True) ''MRN'' m" by auto
  from m(2) obtain x1 x2 x3 where x: "m = [x1, x2, x3]" "ch_eq True (CHR ''M'') x1"
      "ch_eq True (CHR ''R'') x2" "ch_eq True (CHR ''N'') x3"
    by (auto simp: list_all2_Cons1)
  from x(2) have x1: "x1 = CHR ''M'' \<or> x1 = CHR ''m''" by (rule ch_eq_M)
  then have "is_word x1" by (auto simp: is_word_def is_upper_def is_lower_def)
  with wb m(1) x(1) eq have nq: "\<not> word_opt q" by (simp add: st_rest_def next_ch_def word_opt_def)
  from m(1) x(1) eq have b: "b = x1 # x2 # x3 # st_rest st1" by (simp add: st_rest_def)
  show ?thesis unfolding b
    by (rule keyword_match[OF nq x1 ch_eq_R[OF x(3)] ch_eq_N[OF x(4)]])
qed

lemma keyword_from_pattern4:
  assumes "ms False mrn_pattern4 (q, b, None) \<noteq> []"
  shows "ms False mrn_keyword (q, b, None) \<noteq> []"
proof -
  from assms obtain st' where "st' \<in> set (ms False mrn_pattern4 (q, b, None))"
    by (auto simp only: ne_mem)
  then have "\<exists>st''. st'' \<in> set (ms False mrn_keyword (q, b, None))"
    unfolding mrn_pattern4_def mrn_keyword_def cat.simps seq_mem by blast
  then show ?thesis by (auto simp only: ne_mem)
qed

lemma star_cls_run:
  "st' \<in> set (ms ic (Star (Cls as)) st) \<Longrightarrow>
     \<exists>m. reaches st m st' \<and> (\<forall>c\<in>set m. cls_mem ic as c) \<and> snd (snd st') = snd (snd st)"
proof (induction "length (st_rest st)" arbitrary: st rule: less_induct)
  case less
  from less.prems have "st' = st \<or> (\<exists>st1 \<in> set (ms ic (Cls as) st).
         length (st_rest st1) < length (st_rest st) \<and> st' \<in> set (ms ic (Star (Cls as)) st1))"
    using star_mem[of st' ic "Cls as" st] by blast
  then show ?case
  proof
    assume "st' = st"
    then have "reaches st [] st' \<and> (\<forall>c\<in>set []. cls_mem ic as c) \<and> snd (snd st') = snd (snd st)"
      by (simp add: reaches_def)
    then show ?thesis by blast
  next
    assume "\<exists>st1 \<in> set (ms ic (Cls as) st).
         length (st_rest st1) < length (st_rest st) \<and> st' \<in> set (ms ic (Star (Cls as)) st1)"
    then obtain st1 where st1: "st1 \<in> set (ms ic (Cls as) st)"
        "length (st_rest st1) < length (st_rest st)" "st' \<in> set (ms ic (Star (Cls as)) st1)"
      by blast
    from st1(1) obtain x xs where x: "st_rest st = x # xs" "cls_mem ic as x"
        "st1 = (Some x, xs, snd (snd st))"
      by (cases "st_rest st") (auto split: if_splits)
    from less.hyps[OF st1(2) st1(3)] obtain m where
      m: "reaches st1 m st'" "\<forall>c\<in>set m. cls_mem ic as c" "snd (snd st') = snd (snd st1)"
      by blast
    from x m have "reaches st (x # m) st' \<and> (\<forall>c\<in>set (x # m). cls_mem ic as c)
                   \<and> snd (snd st') = snd (snd st)"
      by (auto simp: reaches_def st_rest_def)
    then show ?thesis by blast
  qed
qed

lemma at_least_cls_run:
  "st' \<in> set (ms ic (at_least n (Cls as)) st) \<Longrightarrow>
     \<exists>m. reaches st m st' \<and> n \<le> length m \<and> (\<forall>c\<in>set m. cls_mem ic as c)
         \<and> snd (snd st') = snd (snd st)"
proof (induction n arbitrary: st)
  case 0
  from star_cls_run[of st' ic as st] 0 show ?case by auto
next
  case (Suc n)
  from Suc.prems obtain st1 where st1: "st1 \<in> set (ms ic (Cls as) st)"
      and st': "st' \<in> set (ms ic (at_least n (Cls as)) st1)"
    by (auto simp only: at_least.simps seq_mem)
  from st1 obtain x xs where x: "st_rest st = x # xs" "cls_mem ic as x"
      "st1 = (Some x, xs, snd (snd st))"
    by (cases "st_rest st") (auto split: if_splits)
  from Suc.IH[OF st'] obtain m where
    m: "reaches st1 m st'" "n \<le> length m" "\<forall>c\<in>set m. cls_mem ic as c"
       "snd (snd st') = snd (snd st1)"
    by blast
  from x m have "reaches st (x # m) st' \<and> Suc n \<le> length (x # m)
                 \<and> (\<forall>c\<in>set (x # m). cls_mem ic as c) \<and> snd (snd st') = snd (snd st)"
    by (auto simp: reaches_def st_rest_def)
  then show ?case by blast
qed

lemma plus_cls_run:
  "st' \<in> set (ms ic (Plus (Cls as)) st) \<Longrightarrow>
     \<exists>m. reaches st m st' \<and> m \<noteq> [] \<and> (\<forall>c\<in>set m. cls_mem ic as c)
         \<and> snd (snd st') = snd (snd st)"
  using at_least_cls_run[of st' ic "Suc 0" as st] by (auto simp: Plus_def)

lemma space_not_word: "is_space c \<Longrightarrow> \<not> is_word c"
  by (auto simp: is_space_def is_word_def is_upper_def is_lower_def is_digit_def Let_def)

lemma keyword_from_pattern3:
  assumes "ms True mrn_pattern3 (q, b, None) \<noteq> []"
  shows "\<exists>a' b'. b = a' @ b'
           \<and> ms False mrn_keyword ((if a' = [] then q else Some (last a')), b', None) \<noteq> []"
proof -
  let ?st = "(q, b, None :: string option)"
  from assms obtain st' where "st' \<in> set (ms True mrn_pattern3 ?st)"
    by (auto simp only: ne_mem)
  then obtain st0 st1 st2 st3 st4 st5 where
        0: "st0 \<in> set (ms True WordB ?st)"
    and 1: "st1 \<in> set (ms True (lit ''patient'') st0)"
    and 2: "st2 \<in> set (ms True (Opt (Chr (CHR 0x27))) st1)"
    and 3: "st3 \<in> set (ms True (Opt (Chr (CHR ''s''))) st2)"
    and 4: "st4 \<in> set (ms True (Plus cls_s) st3)"
    and 5: "st5 \<in> set (ms True (lit ''MRN'') st4)"
    unfolding mrn_pattern3_def cat.simps seq_mem by blast
  from ms_consumed[OF 0] ms_consumed[OF 1] ms_consumed[OF 2] ms_consumed[OF 3]
  obtain m0 m1 m2 m3 where r: "reaches ?st m0 st0" "reaches st0 m1 st1" "reaches st1 m2 st2"
      "reaches st2 m3 st3" by blast
  from plus_cls_run[OF 4[unfolded cls_s_def]] obtain m4 where
    m4: "reaches st3 m4 st4" "m4 \<noteq> []" "\<forall>c\<in>set m4. cls_mem True [CSpace] c"
      "snd (snd st4) = snd (snd st3)" by blast
  let ?a = "m0 @ m1 @ m2 @ m3 @ m4"
  have ra: "reaches ?st ?a st4"
    using r m4(1) by (blast intro: reaches_trans)
  from m4(2,3) have sp: "is_space (last ?a)"
    using last_in_set[of m4] by (auto simp: cls_mem_def)
  from ra m4(2) have b: "b = ?a @ st_rest st4" and f: "fst st4 = Some (last ?a)"
    by (auto simp: reaches_def st_rest_def)
  from ms_lit[OF _ 5] obtain m where m: "st_rest st4 = m @ st_rest st5"
      "list_all2 (ch_eq True) ''MRN'' m" by auto
  from m(2) obtain x1 x2 x3 where x: "m = [x1, x2, x3]" "ch_eq True (CHR ''M'') x1"
      "ch_eq True (CHR ''R'') x2" "ch_eq True (CHR ''N'') x3"
    by (auto simp: list_all2_Cons1)
  have nq: "\<not> word_opt (Some (last ?a))" using sp by (simp add: word_opt_def space_not_word)
  have "ms False mrn_keyword (Some (last ?a), x1 # x2 # x3 # st_rest st5, None) \<noteq> []"
    by (rule keyword_match[OF nq ch_eq_M[OF x(2)] ch_eq_R[OF x(3)] ch_eq_N[OF x(4)]])
  with m(1) x(1) have "ms False mrn_keyword ((if ?a = [] then q else Some (last ?a)), st_rest st4, None) \<noteq> []"
    using m4(2) by simp
  with b show ?thesis by blast
qed

lemma keyword_gate:
  assumes "\<not> re_test False mrn_keyword u"
  shows "re_exec True mrn_pattern1 u = None" "re_exec True mrn_pattern2 u = None"
        "re_exec True mrn_pattern3 u = None" "re_exec False mrn_pattern4 u = None"
proof -
  from assms have k: "re_exec_from False mrn_keyword None u = None"
    by (cases "re_exec_from False mrn_keyword None u") (simp_all add: re_test_def re_exec_def)
  have same: "\<exists>a' b'. b = a' @ b'
       \<and> ms False mrn_keyword ((if a' = [] then q else Some (last a')), b', None) \<noteq> []"
    if "ms False mrn_keyword (q, b, None) \<noteq> []" for q b
    using that by (intro exI[of _ "[]"] exI[of _ b]) simp
  show "re_exec True mrn_pattern1 u = None"
    unfolding re_exec_def
    by (rule re_exec_from_implied[OF _ k], rule same, rule keyword_from_MRN[where r = "cat [Star cls_hyphen_s,
              Grp (cat [at_least 2 cls_AZ, Star cls_hyphen_s, Plus cls_d]), WordB]"])
       (simp add: mrn_pattern1_def)
  show "re_exec True mrn_pattern2 u = None"
    unfolding re_exec_def
    by (rule re_exec_from_implied[OF _ k], rule same, rule keyword_from_MRN[where r = "cat [Plus cls_s,
              Opt (cat [lit ''number'', Plus cls_s]), Grp (Plus cls_d), WordB]"])
       (simp add: mrn_pattern2_def)
  show "re_exec True mrn_pattern3 u = None"
    unfolding re_exec_def
    by (rule re_exec_from_implied[OF _ k], rule keyword_from_pattern3)
  show "re_exec False mrn_pattern4 u = None"
    unfolding re_exec_def
    by (rule re_exec_from_implied[OF _ k], rule same, rule keyword_from_pattern4)
qed

subsection \<open>Detection without the keyword\<close>


lemma upper_facts:
  "is_upper c \<Longrightarrow> \<not> is_space c"
  "is_upper c \<Longrightarrow> c \<noteq> CHR ''-''"
  "is_upper c \<Longrightarrow> to_upper_ch c = c"
  "is_upper c \<Longrightarrow> \<not> is_digit c"
  by (auto simp: is_digit_def is_space_def to_upper_ch_def is_upper_def Let_def)

lemma bol_later: "re_exec_from ic (Seq Bol r) (Some c) s = None"
proof (induction s arbitrary: c)
  case Nil
  then show ?case by (simp add: re_exec_from.simps[of _ _ _ "[]"])
next
  case (Cons x xs)
  then show ?case by (simp add: re_exec_from.simps[of _ _ _ "x # xs"])
qed

lemma not_all_digits:
  assumes "\<not> is_digit x"
  shows "\<not> re_test False (cat [Bol, Plus cls_d, Eol]) (x # xs)"
proof -
  have "ms False (Plus cls_d) (None, x # xs, None) = []"
    using assms by (simp add: Plus_def cls_d_def cls_mem_def st_rest_def)
  then show ?thesis
    by (simp add: re_test_def re_exec_def re_exec_from.simps[of _ _ _ "x # xs"] bol_later)
qed

lemma normalize_mrn_token:
  assumes "L \<noteq> []" "\<forall>c\<in>set L. is_upper c" "\<forall>c\<in>set D. is_digit c"
  shows "normalize_mrn (L @ D) = L @ D"
proof -
  let ?g = "L @ D"
  from assms have ns: "\<forall>c\<in>set ?g. \<not> is_space c" and nh: "\<forall>c\<in>set ?g. \<not> c = CHR ''-''"
    by (auto dest: upper_facts digit_facts)
  have 1: "replace_all False (Plus cls_s) [] ?g = ?g"
    unfolding replace_all_def by (rule replace_all_from_needs[OF needs_space ns])
  have 2: "replace_all False (Chr (CHR ''-'')) [] ?g = ?g"
    unfolding replace_all_def by (rule replace_all_from_needs[OF needs_hyphen nh])
  from assms have 3: "toUpperCase ?g = ?g"
    by (simp add: toUpperCase_def upper_facts digit_facts map_idI)
  from assms obtain x xs where x: "L = x # xs" "\<not> is_digit x"
    by (cases L) (auto dest: upper_facts)
  then have 4: "\<not> re_test False (cat [Bol, Plus cls_d, Eol]) ?g"
    using not_all_digits[of x "xs @ D"] by simp
  show ?thesis using 1 2 3 4 by (simp add: normalize_mrn_def del: cat.simps)
qed

lemma detectMRN_without_keyword:
  assumes "\<not> re_test False mrn_keyword u"
  shows "detectMRN u = try_patterns [(False, mrn_pattern5)] u"
proof (cases "u = []")
  case True
  then have "re_exec False mrn_pattern5 u = None"
    by (simp add: re_exec_def re_exec_from.simps[of _ _ _ "[]"] mrn_pattern5_def st_rest_def
                  word_opt_def next_ch_def)
  with True show ?thesis by (simp add: detectMRN_def)
next
  case False
  then show ?thesis
    by (simp add: detectMRN_def mrn_patterns_def keyword_gate[OF assms])
qed






section \<open>MRN normalization on the two spellings\<close>

text \<open>
  The first match of a greedy pattern on a text that it reads to the end.
\<close>

lemma first_Seq:
  "ms_first ic a st = Some s1 \<Longrightarrow> ms_first ic b s1 = Some t \<Longrightarrow> ms_first ic (Seq a b) st = Some t"
  by (cases "ms ic a st"; cases "ms ic b s1") (simp_all add: ms_first_def)

lemma first_Grp:
  "ms_first ic r st = Some sg \<Longrightarrow>
     ms_first ic (Grp r) st
       = Some (fst sg, st_rest sg, Some (take (length (st_rest st) - length (st_rest sg)) (st_rest st)))"
  by (cases "ms ic r st") (simp_all add: ms_first_def)

lemma first_WordB:
  "word_opt p \<noteq> word_opt (next_ch s) \<Longrightarrow> ms_first ic WordB (p, s, cap) = Some (p, s, cap)"
  by (simp add: ms_first_def st_rest_def)

lemma first_Star_run:
  assumes "\<forall>c\<in>set m. cls_mem ic as c" "rest = [] \<or> \<not> cls_mem ic as (hd rest)"
  shows "ms_first ic (Star (Cls as)) (p, m @ rest, cap)
           = Some ((if m = [] then p else Some (last m)), rest, cap)"
  using assms
proof (induction m arbitrary: p)
  case Nil
  then have "ms ic (Cls as) (p, rest, cap) = []"
    by (cases rest) (auto simp: st_rest_def)
  then show ?case by (simp add: ms_first_def ms.simps(10)[of ic "Cls as"])
next
  case (Cons x xs)
  from Cons.prems have 1: "ms ic (Cls as) (p, x # xs @ rest, cap) = [(Some x, xs @ rest, cap)]"
    by (simp add: st_rest_def)
  from Cons.IH[of "Some x"] Cons.prems
  have 2: "ms_first ic (Star (Cls as)) (Some x, xs @ rest, cap)
             = Some ((if xs = [] then Some x else Some (last xs)), rest, cap)" by simp
  then obtain sts where 3: "ms ic (Star (Cls as)) (Some x, xs @ rest, cap)
             = ((if xs = [] then Some x else Some (last xs)), rest, cap) # sts"
    by (cases "ms ic (Star (Cls as)) (Some x, xs @ rest, cap)") (simp_all add: ms_first_def)
  have "ms ic (Star (Cls as)) (p, (x # xs) @ rest, cap)
          = ms ic (Star (Cls as)) (Some x, xs @ rest, cap) @ [(p, (x # xs) @ rest, cap)]"
    by (subst ms.simps(10)) (simp add: 1 st_rest_def del: ms.simps)
  with 3 show ?case by (simp add: ms_first_def)
qed

lemma first_at_least_run:
  assumes "n \<le> length m" "\<forall>c\<in>set m. cls_mem ic as c" "rest = [] \<or> \<not> cls_mem ic as (hd rest)"
  shows "ms_first ic (at_least n (Cls as)) (p, m @ rest, cap)
           = Some ((if m = [] then p else Some (last m)), rest, cap)"
  using assms
proof (induction n arbitrary: m p)
  case 0
  then show ?case by (simp add: first_Star_run)
next
  case (Suc n)
  then obtain x xs where m: "m = x # xs" by (cases m) auto
  with Suc.prems have 1: "ms ic (Cls as) (p, x # xs @ rest, cap) = [(Some x, xs @ rest, cap)]"
    by (simp add: st_rest_def)
  from Suc.IH[of xs "Some x"] Suc.prems m
  have 2: "ms_first ic (at_least n (Cls as)) (Some x, xs @ rest, cap)
             = Some ((if xs = [] then Some x else Some (last xs)), rest, cap)" by simp
  have "ms ic (at_least (Suc n) (Cls as)) (p, m @ rest, cap)
           = ms ic (at_least n (Cls as)) (Some x, xs @ rest, cap)"
    by (simp add: 1 m del: ms.simps(3))
  with 2 m show ?case by (simp add: ms_first_def)
qed

lemma first_Plus_run:
  assumes "m \<noteq> []" "\<forall>c\<in>set m. cls_mem ic as c" "rest = [] \<or> \<not> cls_mem ic as (hd rest)"
  shows "ms_first ic (Plus (Cls as)) (p, m @ rest, cap) = Some (Some (last m), rest, cap)"
proof -
  from assms(1) have "Suc 0 \<le> length m" by (cases m) auto
  from first_at_least_run[OF this assms(2,3), of p cap] assms(1)
  show ?thesis by (simp add: Plus_def)
qed

lemma first_lit_MRN:
  "ms_first True (lit ''MRN'') (p, ''MRN'' @ rest, cap) = Some (Some (CHR ''N''), rest, cap)"
  by (simp add: ms_first_def lit_def st_rest_def ch_eq_def)

lemma first_exec:
  "ms_first ic r (None, s, None) = Some st' \<Longrightarrow>
     re_exec ic r s = Some (take (length s - length (st_rest st')) s, snd (snd st'))"
  by (cases "ms ic r (None, s, None)")
     (simp_all add: ms_first_def re_exec_def re_exec_from.simps[of ic r None s])

lemma to_lower_not_upper: "\<not> is_upper (to_lower_ch x)"
proof (cases x)
  case (Char b0 b1 b2 b3 b4 b5 b6 b7)
  then show ?thesis
    by (cases b5; cases b6; cases b7; cases b4; cases b3)
       (simp_all add: to_lower_ch_def is_upper_def Let_def of_bool_def split: if_splits)
qed

lemma in_range_AZ: "in_range (CHR ''A'') (CHR ''Z'') x = is_upper x"
  by (simp add: in_range_def is_upper_def Let_def)

lemma cls_AZ_letter:
  "cls_mem True [CRange (CHR ''A'') (CHR ''Z'')] x = (is_upper x \<or> is_lower x)"
  using to_upper_is_upper[of x] lower_to_upper[of x] to_lower_not_upper[of x]
  by (auto simp: cls_mem_def in_range_AZ)

lemma to_upper_ch_hyphen: "to_upper_ch x = CHR ''-'' \<Longrightarrow> x = CHR ''-''"
  by (cases x) (auto simp: to_upper_ch_def Let_def split: if_splits)

lemma cls_hyphen_s_mem:
  "cls_mem ic [CChar (CHR ''-''), CSpace] x = (x = CHR ''-'' \<or> is_space x)"
  using to_upper_ch_hyphen[of x] by (auto simp: cls_mem_def ch_eq_def to_upper_ch_def)

lemma letter_facts:
  assumes "is_upper c \<or> is_lower c"
  shows "\<not> is_space c" "c \<noteq> CHR ''-''" "\<not> is_digit c" "is_word c" "is_upper (to_upper_ch c)"
  using assms lower_to_upper[of c]
  by (auto simp: is_digit_def is_space_def is_upper_def is_lower_def is_word_def to_upper_ch_def Let_def)

lemma separator_facts:
  assumes "c = CHR ''-'' \<or> is_space c"
  shows "\<not> is_upper c" "\<not> is_lower c" "\<not> is_digit c"
  using assms by (auto simp: is_digit_def is_space_def is_upper_def is_lower_def Let_def)

lemma digit_facts2:
  assumes "is_digit c"
  shows "\<not> is_lower c" "is_word c"
  using assms by (auto simp: is_digit_def is_lower_def is_word_def Let_def)

text \<open>
  The two replacements of the normalization remove the hyphens and the white space:
  each is a filter.
\<close>

lemma remove_hyphens:
  "replace_all_from False (Chr (CHR ''-'')) [] p s = filter (\<lambda>c. c \<noteq> CHR ''-'') s"
proof (induction s arbitrary: p)
  case Nil
  then show ?case by (simp add: replace_all_from.simps[of _ _ _ _ "[]"] st_rest_def)
next
  case (Cons x xs)
  then show ?case
    by (simp add: replace_all_from.simps[of _ _ _ _ "x # xs"] st_rest_def ch_eq_def)
qed

lemma remove_spaces:
  "replace_all_from False (Plus cls_s) [] p s = filter (\<lambda>c. \<not> is_space c) s"
proof (induction "length s" arbitrary: s p rule: less_induct)
  case less
  show ?case
  proof (cases s)
    case Nil
    then show ?thesis
      by (simp add: replace_all_from.simps[of _ _ _ _ "[]"] st_rest_def Plus_def cls_s_def)
  next
    case (Cons x xs)
    show ?thesis
    proof (cases "is_space x")
      case False
      then have "ms False (Plus cls_s) (p, x # xs, None) = []"
        by (simp add: Plus_def cls_s_def cls_mem_def st_rest_def)
      with False less.hyps[of xs "Some x"] Cons show ?thesis
        by (simp add: replace_all_from.simps[of _ _ _ _ "x # xs"] del: ms.simps)
    next
      case True
      let ?m = "takeWhile is_space s" and ?r = "dropWhile is_space s"
      have s: "s = ?m @ ?r" by simp
      from True Cons have m: "?m \<noteq> []" by simp
      have all: "\<forall>c\<in>set ?m. cls_mem False [CSpace] c"
        by (auto simp: cls_mem_def dest: set_takeWhileD)
      have stop: "?r = [] \<or> \<not> cls_mem False [CSpace] (hd ?r)"
        using hd_dropWhile[of is_space s] by (auto simp: cls_mem_def)
      from first_Plus_run[OF m all stop, of p None]
      have "ms_first False (Plus cls_s) (p, s, None) = Some (Some (last ?m), ?r, None)"
        by (simp add: cls_s_def)
      then obtain sts where f: "ms False (Plus cls_s) (p, s, None) = (Some (last ?m), ?r, None) # sts"
        by (cases "ms False (Plus cls_s) (p, s, None)") (simp_all add: ms_first_def)
      have len: "length ?r < length s"
        using True Cons length_dropWhile_le[of is_space xs] by simp
      have "replace_all_from False (Plus cls_s) [] p s
              = replace_all_from False (Plus cls_s) [] (Some (last ?m)) ?r"
        using f len by (simp add: replace_all_from.simps[of _ _ _ p s] st_rest_def del: ms.simps)
      also have "\<dots> = filter (\<lambda>c. \<not> is_space c) ?r"
        by (rule less.hyps[OF len])
      also have "\<dots> = filter (\<lambda>c. \<not> is_space c) s"
      proof -
        have "filter (\<lambda>c. \<not> is_space c) ?m = []"
          by (auto simp: filter_empty_conv dest: set_takeWhileD)
        then have "filter (\<lambda>c. \<not> is_space c) (?m @ ?r) = filter (\<lambda>c. \<not> is_space c) ?r"
          by (simp only: filter_append append_Nil)
        then show ?thesis by simp
      qed
      finally show ?thesis .
    qed
  qed
qed

lemma normalize_mrn_tail:
  assumes L: "L \<noteq> []" "\<forall>c\<in>set L. is_upper c \<or> is_lower c"
      and S: "\<forall>c\<in>set S. c = CHR ''-'' \<or> is_space c"
      and D: "\<forall>c\<in>set D. is_digit c"
  shows "normalize_mrn (L @ S @ D) = toUpperCase L @ D"
proof -
  have 1: "filter (\<lambda>c. c \<noteq> CHR ''-'') (filter (\<lambda>c. \<not> is_space c) (L @ S @ D)) = L @ D"
  proof -
    from L have "\<forall>c\<in>set L. \<not> is_space c \<and> c \<noteq> CHR ''-''"
      using letter_facts(1,2) by blast
    then have "filter (\<lambda>c. c \<noteq> CHR ''-'') (filter (\<lambda>c. \<not> is_space c) L) = L"
      by (simp add: filter_id_conv)
    moreover from S have "filter (\<lambda>c. c \<noteq> CHR ''-'') (filter (\<lambda>c. \<not> is_space c) S) = []"
      by (auto simp: filter_empty_conv)
    moreover from D have "\<forall>c\<in>set D. \<not> is_space c \<and> c \<noteq> CHR ''-''"
      using digit_facts(1,2) by blast
    then have "filter (\<lambda>c. c \<noteq> CHR ''-'') (filter (\<lambda>c. \<not> is_space c) D) = D"
      by (simp add: filter_id_conv)
    ultimately show ?thesis by simp
  qed
  from D have 2: "toUpperCase (L @ D) = toUpperCase L @ D"
    by (simp add: toUpperCase_def digit_facts map_idI)
  from L obtain a as where a: "L = a # as" "is_upper a \<or> is_lower a" by (cases L) auto
  from letter_facts(5)[OF a(2)] have "\<not> is_digit (to_upper_ch a)" by (rule upper_facts(4))
  with a(1) obtain x xs where x: "toUpperCase L = x # xs" "\<not> is_digit x"
    by (simp add: toUpperCase_def)
  then have 3: "\<not> re_test False (cat [Bol, Plus cls_d, Eol]) (toUpperCase L @ D)"
    using not_all_digits[of x "xs @ D"] by simp
  show ?thesis
    using 1 2 3 by (simp add: normalize_mrn_def replace_all_def remove_spaces remove_hyphens del: cat.simps)
qed

lemma pattern1_reads_tail:
  assumes L: "2 \<le> length L" "\<forall>c\<in>set L. is_upper c \<or> is_lower c"
      and S0: "\<forall>c\<in>set S0. c = CHR ''-'' \<or> is_space c"
      and S: "\<forall>c\<in>set S. c = CHR ''-'' \<or> is_space c"
      and D: "D \<noteq> []" "\<forall>c\<in>set D. is_digit c"
  shows "re_exec True mrn_pattern1 (''MRN'' @ S0 @ L @ S @ D)
           = Some (''MRN'' @ S0 @ L @ S @ D, Some (L @ S @ D))"
proof -
  let ?u = "''MRN'' @ S0 @ L @ S @ D"
  let ?hs = "[CChar (CHR ''-''), CSpace]" and ?AZ = "[CRange (CHR ''A'') (CHR ''Z'')]"
  let ?p2 = "if S0 = [] then Some (CHR ''N'') else Some (last S0)"
  let ?p3 = "if S = [] then Some (last L) else Some (last S)"
  from L(1) have Lne: "L \<noteq> []" by auto
  then have hdL: "hd L \<in> set L" by simp
  from D(1) have hdD: "hd D \<in> set D" and lastD: "last D \<in> set D" by simp_all
  have hdSD: "\<not> (is_upper (hd (S @ D)) \<or> is_lower (hd (S @ D)))"
  proof (cases S)
    case Nil
    with hdD D(2) show ?thesis by (auto dest: digit_facts digit_facts2)
  next
    case (Cons s ss)
    with S have "s = CHR ''-'' \<or> is_space s" by simp
    from separator_facts(1,2)[OF this] Cons show ?thesis by simp
  qed
  have a1: "ms_first True WordB (None, ?u, None) = Some (None, ?u, None)"
    by (rule first_WordB) (simp add: word_opt_def next_ch_def is_word_def is_upper_def)
  have a2: "ms_first True (lit ''MRN'') (None, ?u, None) = Some (Some (CHR ''N''), S0 @ L @ S @ D, None)"
    by (rule first_lit_MRN)
  have a3: "ms_first True (Star (Cls ?hs)) (Some (CHR ''N''), S0 @ L @ S @ D, None)
              = Some (?p2, L @ S @ D, None)"
  proof (rule first_Star_run)
    show "\<forall>c\<in>set S0. cls_mem True ?hs c" using S0 by (simp add: cls_hyphen_s_mem)
    from L(2) hdL have "is_upper (hd L) \<or> is_lower (hd L)" by blast
    from letter_facts(1,2)[OF this] Lne
    show "L @ S @ D = [] \<or> \<not> cls_mem True ?hs (hd (L @ S @ D))"
      by (simp add: cls_hyphen_s_mem)
  qed
  have g1: "ms_first True (at_least 2 (Cls ?AZ)) (?p2, L @ S @ D, None)
              = Some (Some (last L), S @ D, None)"
    using first_at_least_run[of 2 L True ?AZ "S @ D" ?p2 None] L hdSD Lne
    by (simp add: cls_AZ_letter)
  have g2: "ms_first True (Star (Cls ?hs)) (Some (last L), S @ D, None) = Some (?p3, D, None)"
  proof -
    from D(2) hdD have "is_digit (hd D)" by blast
    from digit_facts(1,2)[OF this] have "\<not> cls_mem True ?hs (hd D)"
      by (simp add: cls_hyphen_s_mem)
    with first_Star_run[of S True ?hs D "Some (last L)" None] S show ?thesis
      by (simp add: cls_hyphen_s_mem)
  qed
  have g3: "ms_first True (Plus (Cls [CDigit])) (?p3, D, None) = Some (Some (last D), [], None)"
    using first_Plus_run[of D True "[CDigit]" "[]" ?p3 None] D by (simp add: cls_mem_def)
  have g: "ms_first True (Seq (at_least 2 (Cls ?AZ)) (Seq (Star (Cls ?hs)) (Plus (Cls [CDigit]))))
             (?p2, L @ S @ D, None) = Some (Some (last D), [], None)"
    by (rule first_Seq[OF g1 first_Seq[OF g2 g3]])
  have grp: "ms_first True (Grp (Seq (at_least 2 (Cls ?AZ)) (Seq (Star (Cls ?hs)) (Plus (Cls [CDigit])))))
             (?p2, L @ S @ D, None) = Some (Some (last D), [], Some (L @ S @ D))"
    using first_Grp[OF g] by (simp add: st_rest_def)
  have w2: "ms_first True WordB (Some (last D), [], Some (L @ S @ D))
              = Some (Some (last D), [], Some (L @ S @ D))"
    using D(2) lastD by (intro first_WordB) (auto simp: word_opt_def next_ch_def dest: digit_facts2)
  have "ms_first True mrn_pattern1 (None, ?u, None) = Some (Some (last D), [], Some (L @ S @ D))"
    unfolding mrn_pattern1_def cat.simps cls_hyphen_s_def cls_AZ_def cls_d_def
    by (rule first_Seq[OF a1 first_Seq[OF a2 first_Seq[OF a3 first_Seq[OF grp w2]]]])
  from first_exec[OF this] show ?thesis by (simp add: st_rest_def)
qed

lemma pattern5_reads_token:
  assumes U: "2 \<le> length U" "\<forall>c\<in>set U. is_upper c"
      and D: "3 \<le> length D" "\<forall>c\<in>set D. is_digit c"
  shows "re_exec False mrn_pattern5 (U @ D) = Some (U @ D, Some (U @ D))"
proof -
  let ?AZ = "[CRange (CHR ''A'') (CHR ''Z'')]"
  from U(1) have Une: "U \<noteq> []" by auto
  from D(1) have Dne: "D \<noteq> []" by auto
  then have hdD: "hd D \<in> set D" and lastD: "last D \<in> set D" by simp_all
  from Une U(2) have "is_upper (hd U)" by simp
  then have wU: "is_word (hd (U @ D))" using Une by (simp add: is_word_def)
  have a1: "ms_first False WordB (None, U @ D, None) = Some (None, U @ D, None)"
    using wU Une by (intro first_WordB) (cases U, simp_all add: word_opt_def next_ch_def)
  have g1: "ms_first False (at_least 2 (Cls ?AZ)) (None, U @ D, None) = Some (Some (last U), D, None)"
  proof -
    from D(2) hdD have "is_digit (hd D)" by blast
    from digit_facts(4)[OF this] have "\<not> cls_mem False ?AZ (hd D)"
      by (simp add: cls_mem_def in_range_AZ)
    with first_at_least_run[of 2 U False ?AZ D None None] U Une show ?thesis
      by (simp add: cls_mem_def in_range_AZ)
  qed
  have g2: "ms_first False (at_least 3 (Cls [CDigit])) (Some (last U), D, None)
              = Some (Some (last D), [], None)"
    using first_at_least_run[of 3 D False "[CDigit]" "[]" "Some (last U)" None] D Dne
    by (simp add: cls_mem_def)
  have grp: "ms_first False (Grp (Seq (at_least 2 (Cls ?AZ)) (at_least 3 (Cls [CDigit]))))
               (None, U @ D, None) = Some (Some (last D), [], Some (U @ D))"
    using first_Grp[OF first_Seq[OF g1 g2]] by (simp add: st_rest_def)
  have w2: "ms_first False WordB (Some (last D), [], Some (U @ D))
              = Some (Some (last D), [], Some (U @ D))"
    using D(2) lastD by (intro first_WordB) (auto simp: word_opt_def next_ch_def dest: digit_facts2)
  have "ms_first False mrn_pattern5 (None, U @ D, None) = Some (Some (last D), [], Some (U @ D))"
    unfolding mrn_pattern5_def cat.simps cls_AZ_def cls_d_def
    by (rule first_Seq[OF a1 first_Seq[OF grp w2]])
  from first_exec[OF this] show ?thesis by (simp add: st_rest_def)
qed

lemma star_stop:
  "\<not> cls_mem ic as x \<Longrightarrow> ms ic (Star (Cls as)) (p, x # xs, cap) = [(p, x # xs, cap)]"
  by (subst ms.simps(10)) (simp add: st_rest_def)

lemma keyword_start:
  assumes "\<not> is_space b" "\<not> is_space c"
      and "ms False mrn_keyword (q, a # b # c # r, None) \<noteq> []"
  shows "(a = CHR ''M'' \<or> a = CHR ''m'') \<and> (b = CHR ''R'' \<or> b = CHR ''r'')
       \<and> (c = CHR ''N'' \<or> c = CHR ''n'')"
proof -
  have sb: "ms False (Star cls_s) (p, b # xs, cap) = [(p, b # xs, cap)]" for p xs cap
    unfolding cls_s_def using assms(1) by (intro star_stop) (simp add: cls_mem_def)
  have sc: "ms False (Star cls_s) (p, c # xs, cap) = [(p, c # xs, cap)]" for p xs cap
    unfolding cls_s_def using assms(2) by (intro star_stop) (simp add: cls_mem_def)
  from assms(3) show ?thesis
    unfolding mrn_keyword_def cat.simps
    by (auto simp add: sb sc cls_mem_def ch_eq_def st_rest_def simp del: ms.simps(10) split: if_splits)
qed

lemma wordb_inside:
  assumes "\<And>q. ms ic r (q, [], None) = []"
  shows "is_word p \<Longrightarrow> \<forall>c\<in>set s. is_word c \<Longrightarrow> re_exec_from ic (Seq WordB r) (Some p) s = None"
proof (induction s arbitrary: p)
  case Nil
  then show ?case
    by (simp add: re_exec_from.simps[of _ _ _ "[]"] assms st_rest_def)
next
  case (Cons x xs)
  then show ?case
    by (simp add: re_exec_from.simps[of _ _ _ "x # xs"] word_opt_def next_ch_def st_rest_def)
qed

lemma value_without_keyword:
  assumes U: "2 \<le> length U" "\<forall>c\<in>set U. is_upper c" "\<not> prefix ''MRN'' U"
      and D: "D \<noteq> []" "\<forall>c\<in>set D. is_digit c"
  shows "\<not> re_test False mrn_keyword (U @ D)"
proof -
  from U(1) obtain a b U' where U': "U = a # b # U'"
    by (cases U; cases "tl U") auto
  from D(1) obtain c r where c: "U' @ D = c # r" by (cases "U' @ D") auto
  from U(2) U' have ab: "is_upper a" "is_upper b" by simp_all
  have wc: "is_upper c \<or> is_digit c" and wr: "\<forall>x\<in>set r. is_upper x \<or> is_digit x"
  proof -
    from U(2) D(2) U' have "\<forall>x\<in>set (U' @ D). is_upper x \<or> is_digit x" by auto
    then show "is_upper c \<or> is_digit c" "\<forall>x\<in>set r. is_upper x \<or> is_digit x"
      unfolding c by simp_all
  qed
  have nsb: "\<not> is_space b" using ab(2) by (rule upper_facts(1))
  have nsc: "\<not> is_space c" using wc by (auto dest: upper_facts(1) digit_facts(1))
  have start: "ms False mrn_keyword (None, a # b # c # r, None) = []"
  proof (rule ccontr)
    assume "ms False mrn_keyword (None, a # b # c # r, None) \<noteq> []"
    from keyword_start[OF nsb nsc this] ab wc
    have abc: "a = CHR ''M''" "b = CHR ''R''" "c = CHR ''N''"
      by (auto simp: is_upper_def is_digit_def)
    show False
    proof (cases U')
      case Nil
      with c D(2) have "is_digit c" by (cases D) auto
      with abc(3) show ?thesis by (simp add: is_digit_def)
    next
      case (Cons x xs)
      with c have "x = c" by simp
      with Cons U' abc U(3) show ?thesis by simp
    qed
  qed
  have inside: "re_exec_from False mrn_keyword (Some a) (b # c # r) = None"
    unfolding mrn_keyword_def cat.simps
  proof (rule wordb_inside)
    show "is_word a" using ab(1) by (simp add: is_word_def)
    show "\<forall>x\<in>set (b # c # r). is_word x" using ab(2) wc wr by (auto simp: is_word_def)
  qed (simp add: st_rest_def)
  have "U @ D = a # b # c # r" using U' c by simp
  then show ?thesis
    using start inside
    by (simp add: re_test_def re_exec_def re_exec_from.simps[of False mrn_keyword None "a # b # c # r"])
qed

lemma detectMRN_tail:
  assumes L: "2 \<le> length L" "\<forall>c\<in>set L. is_upper c \<or> is_lower c"
      and S0: "\<forall>c\<in>set S0. c = CHR ''-'' \<or> is_space c"
      and S: "\<forall>c\<in>set S. c = CHR ''-'' \<or> is_space c"
      and D: "D \<noteq> []" "\<forall>c\<in>set D. is_digit c"
  shows "detectMRN (''MRN'' @ S0 @ L @ S @ D) = Some (toUpperCase L @ D)"
proof -
  from L(1) have Lne: "L \<noteq> []" by auto
  have n: "normalize_mrn (L @ S @ D) = toUpperCase L @ D"
    by (rule normalize_mrn_tail[OF Lne L(2) S D(2)])
  from Lne L(2) have "is_upper (to_upper_ch (hd L))" by (intro letter_facts(5)) simp
  with Lne have up: "\<exists>c\<in>set (toUpperCase L @ D). is_upper c"
    by (cases L) (auto simp: toUpperCase_def)
  from D have dg: "\<exists>c\<in>set (toUpperCase L @ D). is_digit c" by (cases D) auto
  from up dg have "looks_like_mrn (toUpperCase L @ D)" by (simp only: looks_like_mrn_iff)
  with n Lne have "try_patterns mrn_patterns (''MRN'' @ S0 @ L @ S @ D) = Some (toUpperCase L @ D)"
    unfolding mrn_patterns_def try_patterns.simps pattern1_reads_tail[OF assms] by simp
  then show ?thesis by (simp add: detectMRN_def)
qed

lemma detectMRN_token:
  assumes U: "2 \<le> length U" "\<forall>c\<in>set U. is_upper c" "\<not> prefix ''MRN'' U"
      and D: "3 \<le> length D" "\<forall>c\<in>set D. is_digit c"
  shows "detectMRN (U @ D) = Some (U @ D)"
proof -
  from U(1) have Une: "U \<noteq> []" by auto
  from D(1) have Dne: "D \<noteq> []" by auto
  have nk: "\<not> re_test False mrn_keyword (U @ D)"
    by (rule value_without_keyword[OF U Dne D(2)])
  have n: "normalize_mrn (U @ D) = U @ D"
    by (rule normalize_mrn_token[OF Une U(2) D(2)])
  from Une U(2) have up: "\<exists>c\<in>set (U @ D). is_upper c" by (cases U) auto
  from Dne D(2) have dg: "\<exists>c\<in>set (U @ D). is_digit c" by (cases D) auto
  from up dg have "looks_like_mrn (U @ D)" by (simp only: looks_like_mrn_iff)
  with n Une show ?thesis
    by (simp add: detectMRN_without_keyword[OF nk] pattern5_reads_token[OF U(1,2) D])
qed

text \<open>
  Claim C7, as stated, fails: \<open>_detectMRN\<close> applied to a value it has returned does
  not always return that value. A tail of digits alone receives the prefix \<open>MRNAB\<close>,
  and the first pattern reads that value as the keyword followed by \<open>AB\<close> and the
  digits: "MRN 123" gives \<open>MRNAB123\<close>, which gives \<open>AB123\<close>. A tail with fewer than
  three digits gives a value that the fifth pattern does not accept: "MRN AB-12"
  gives \<open>AB12\<close>, which gives no MRN.
\<close>

theorem detectMRN_idempotent_counterexample:
  "detectMRN ''MRN 123'' = Some ''MRNAB123'' \<and> detectMRN ''MRNAB123'' = Some ''AB123''
   \<and> detectMRN ''MRN AB-12'' = Some ''AB12'' \<and> detectMRN ''AB12'' = None"
  by code_simp

text \<open>
  Claim C7, amended. For the keyword \<open>MRN\<close> followed by hyphens and white space (or
  none), two or more letters of either case, hyphens and white space (or none) and one
  or more digits, \<open>_detectMRN\<close> returns the letters in upper case followed by the
  digits, whatever the separators are: "MRN AB-123" and "MRN AB 123" both give
  \<open>AB123\<close>. When the value has three or more digits and its letters do not begin with
  \<open>MRN\<close>, \<open>_detectMRN\<close> applied to the value returns the value again.
\<close>

theorem detectMRN_same_value_and_stable:
  assumes "2 \<le> length L" and "\<forall>c\<in>set L. is_upper c \<or> is_lower c"
      and "\<forall>c\<in>set (S0 @ S). c = CHR ''-'' \<or> is_space c"
      and "D \<noteq> []" and "\<forall>c\<in>set D. is_digit c"
  shows "detectMRN (''MRN'' @ S0 @ L @ S @ D) = Some (toUpperCase L @ D)
       \<and> (3 \<le> length D \<and> \<not> prefix ''MRN'' (toUpperCase L) \<longrightarrow>
            detectMRN (toUpperCase L @ D) = Some (toUpperCase L @ D))"
proof -
  from assms(3) have S0: "\<forall>c\<in>set S0. c = CHR ''-'' \<or> is_space c"
      and S: "\<forall>c\<in>set S. c = CHR ''-'' \<or> is_space c" by auto
  have 1: "detectMRN (''MRN'' @ S0 @ L @ S @ D) = Some (toUpperCase L @ D)"
    by (rule detectMRN_tail[OF assms(1,2) S0 S assms(4,5)])
  have U: "2 \<le> length (toUpperCase L)" "\<forall>c\<in>set (toUpperCase L). is_upper c"
    using assms(1,2) letter_facts(5) by (auto simp: toUpperCase_def)
  have 2: "detectMRN (toUpperCase L @ D) = Some (toUpperCase L @ D)"
    if "3 \<le> length D" "\<not> prefix ''MRN'' (toUpperCase L)"
    by (rule detectMRN_token[OF U that(2) that(1) assms(5)])
  from 1 2 show ?thesis by blast
qed

lemma upper_examples:
  "toUpperCase ''AB'' = ''AB''" "toUpperCase ''ab'' = ''AB''" "\<not> prefix ''MRN'' ''AB''"
  by code_simp+

theorem detectMRN_same_value_and_stable_witness:
  "2 \<le> length ''AB'' \<and> list_all (\<lambda>c. is_upper c \<or> is_lower c) ''AB''
   \<and> list_all (\<lambda>c. c = CHR ''-'' \<or> is_space c) ('' '' @ ''-'')
   \<and> list_all (\<lambda>c. c = CHR ''-'' \<or> is_space c) ('' '' @ '' '')
   \<and> ''123'' \<noteq> [] \<and> list_all is_digit ''123''
   \<and> detectMRN ''MRN AB-123'' = Some ''AB123''
   \<and> detectMRN ''MRN AB 123'' = Some ''AB123''
   \<and> list_all (\<lambda>c. is_upper c \<or> is_lower c) ''ab''
   \<and> detectMRN ''MRN ab-123'' = Some ''AB123''
   \<and> 3 \<le> length ''123'' \<and> \<not> prefix ''MRN'' (toUpperCase ''AB'')
   \<and> detectMRN ''AB123'' = Some ''AB123''"
  using detectMRN_same_value_and_stable [of "''AB''" "'' ''" "''-''" "''123''"]
        detectMRN_same_value_and_stable [of "''AB''" "'' ''" "'' ''" "''123''"]
        detectMRN_same_value_and_stable [of "''ab''" "'' ''" "''-''" "''123''"]
        upper_examples
  by (simp add: is_upper_def is_lower_def is_digit_def is_space_def)

section \<open>Combined detection\<close>

text \<open>
  \<open>_onResult\<close> runs the detection step once for a callback with a final text, on
  that text, and nothing else in it fires the combined event.
\<close>

lemma emit_detections:
  "detections_of (snd (emitStartNote c)) = []"
  "detections_of (snd (emitStopNote c)) = []"
  by (simp_all add: emitStartNote_def emitStopNote_def Let_def)

lemma parseCommand_detections: "detections_of (fst (snd (parseCommand c s))) = []"
proof (cases "trim (toLowerCase s) = []")
  case True then show ?thesis by (simp add: parseCommand_empty)
next
  case False
  then show ?thesis
    by (cases "custom_action (customMap c) (trim (toLowerCase s))")
       (simp_all add: parseCommand_def Let_def emit_detections)
qed

lemma onResult_detections:
  "detections_of (snd (onResult now rs c)) =
     (if fst (collect rs) = [] then []
      else detections_of (snd (detectMRNAndTemplate
             (c\<lparr>fullTranscript := append_sp (fullTranscript c) (finalTxt_of rs)\<rparr>)
             (finalTxt_of rs))))"
proof (cases "fst (collect rs) = []")
  case True
  then show ?thesis by (cases "collect rs") (simp add: onResult_def)
next
  case False
  then show ?thesis
    by (cases "noteMode c")
       (simp_all add: onResult_note onResult_normal Let_def emit_detections
                      parseCommand_detections detect_events_of_def finalTxt_of_def
                 split: option.split)
qed

text \<open>
  Claim C3. From a controller with neither field detected: an utterance in which
  \<open>_detectMRN\<close> finds \<open>m\<close> and \<open>_detectTemplate\<close> finds nothing fires no
  \<open>onMRNTemplateDetected\<close>; a following utterance in which \<open>_detectMRN\<close> finds nothing
  and \<open>_detectTemplate\<close> finds the template \<open>t\<close> (a name that is not empty) fires
  exactly one, with \<open>m\<close>, \<open>t\<close> and the transcript.
\<close>

theorem combined_detection_trigger:
  assumes "detectedMRN c = None" and "detectedTemplate c = None"
    and "detectMRN u1 = Some m" and "detectTemplate (availableTemplates c) u1 = None"
    and "detectMRN u2 = None" and "detectTemplate (availableTemplates c) u2 = Some t"
    and "t \<noteq> []"
  shows "detections_of (snd (detectMRNAndTemplate c u1)) = []
       \<and> detections_of (snd (detectMRNAndTemplate (fst (detectMRNAndTemplate c u1)) u2))
           = [(m, t, fullTranscript c)]"
  using assms detectMRN_not_empty[OF assms(3)] detectTemplate_text[OF assms(6)]
  by (simp add: detectMRNAndTemplate_def Let_def truthy_def)

lemma detection_example:
  "detectedMRN (setTemplates [''Consultation Note Form''] (new_controller [])) = None"
  "detectedTemplate (setTemplates [''Consultation Note Form''] (new_controller [])) = None"
  "availableTemplates (setTemplates [''Consultation Note Form''] (new_controller [])) = [''Consultation Note Form'']"
  "fullTranscript (setTemplates [''Consultation Note Form''] (new_controller [])) = []"
  "detectMRN ''patient MRN AB123'' = Some ''AB123''"
  "detectTemplate [''Consultation Note Form''] ''patient MRN AB123'' = None"
  "detectMRN ''start the consultation'' = None"
  "detectTemplate [''Consultation Note Form''] ''start the consultation'' = Some ''Consultation Note Form''"
  by code_simp+

theorem combined_detection_trigger_witness:
  "detectedMRN (setTemplates [''Consultation Note Form''] (new_controller [])) = None
   \<and> detectedTemplate (setTemplates [''Consultation Note Form''] (new_controller [])) = None
   \<and> detectMRN ''patient MRN AB123'' = Some ''AB123''
   \<and> detectTemplate [''Consultation Note Form''] ''patient MRN AB123'' = None
   \<and> detectMRN ''start the consultation'' = None
   \<and> detectTemplate [''Consultation Note Form''] ''start the consultation''
       = Some ''Consultation Note Form''
   \<and> detections_of (snd (detectMRNAndTemplate
         (setTemplates [''Consultation Note Form''] (new_controller [])) ''patient MRN AB123'')) = []
   \<and> detections_of (snd (detectMRNAndTemplate
         (fst (detectMRNAndTemplate
            (setTemplates [''Consultation Note Form''] (new_controller [])) ''patient MRN AB123''))
         ''start the consultation''))
       = [(''AB123'', ''Consultation Note Form'', [])]"
  using combined_detection_trigger
          [of "setTemplates [''Consultation Note Form''] (new_controller [])"
              "''patient MRN AB123''" "''AB123''" "''start the consultation''"
              "''Consultation Note Form''"]
        detection_example
  by simp

section \<open>Template detection threshold\<close>

lemma split_ws_sublist: "w \<in> set (split_ws cur b s) \<Longrightarrow> sublist w (rev cur @ s)"
proof (induction s arbitrary: cur b)
  case Nil
  then show ?case by simp
next
  case (Cons x xs)
  show ?case
  proof (cases "is_space x")
    case True
    with Cons.prems have "w = rev cur \<or> w \<in> set (split_ws [] True xs)"
      by (auto split: if_splits)
    then show ?thesis
    proof
      assume "w = rev cur" then show ?thesis by simp
    next
      assume "w \<in> set (split_ws [] True xs)"
      from Cons.IH[OF this] have "sublist w xs" by simp
      moreover have "sublist xs (rev cur @ x # xs)"
        using suffix_imp_sublist[of xs "(rev cur @ [x]) @ xs"] by (simp add: suffix_def)
      ultimately show ?thesis by (rule sublist_order.order.trans)
    qed
  next
    case False
    with Cons.prems have "w \<in> set (split_ws (x # cur) False xs)" by simp
    from Cons.IH[OF this] show ?thesis by simp
  qed
qed

lemma templateWords_sublist: "w \<in> set (templateWords_of nt) \<Longrightarrow> sublist w nt"
  using split_ws_sublist[of w "[]" False nt] by (simp add: templateWords_of_def)

lemma matched_all:
  assumes "str_includes ntext ntpl"
  shows "matchedWords_of ntext (templateWords_of ntpl) = templateWords_of ntpl"
proof -
  have "str_includes ntext w" if "w \<in> set (templateWords_of ntpl)" for w
    using templateWords_sublist[OF that] assms
    by (auto simp: str_includes_sublist intro: sublist_order.order.trans)
  then show ?thesis by (simp add: matchedWords_of_def)
qed

lemma sublist_appendD:
  "sublist (a @ b) s \<Longrightarrow> sublist a s \<and> sublist b s"
  by (auto simp: sublist_def) (metis append.assoc)+

lemma one_of_three_no_match:
  assumes len3: "length (templateWords_of (normalize (toLowerCase t))) = 3"
      and len1: "length (matchedWords_of (normalize (toLowerCase u))
                          (templateWords_of (normalize (toLowerCase t)))) = 1"
  shows "detectTemplate [t] u = None"
proof -
  let ?nt = "normalize (toLowerCase u)"
  let ?ntpl = "normalize (toLowerCase t)"
  let ?tw = "templateWords_of ?ntpl"
  from len3 obtain a b c where tw: "?tw = [a, b, c]"
    by (cases ?tw; simp; cases "tl ?tw"; simp; cases "tl (tl ?tw)"; auto)
  have exact: "\<not> str_includes ?nt ?ntpl"
  proof
    assume "str_includes ?nt ?ntpl"
    from matched_all[OF this] len1 len3 show False by simp
  qed
  have ratio: "\<not> ratio_ok (length (matchedWords_of ?nt ?tw)) (length ?tw)"
    by (simp add: len1 len3 ratio_ok_def)
  have two: "\<not> (str_includes ?nt x \<and> str_includes ?nt y)"
    if "(x = a \<and> y = c) \<or> (x = a \<and> y = b)" for x y
    using len1 that by (auto simp: tw matchedWords_of_def split: if_splits)
  have ph1: "\<not> str_includes ?nt (a @ '' '' @ c)"
    using two[of a c] sublist_appendD[of a "'' '' @ c" ?nt] sublist_appendD[of "'' ''" c ?nt]
    by (auto simp: str_includes_sublist)
  have ph2: "\<not> str_includes ?nt (a @ '' '' @ b)"
    using two[of a b] sublist_appendD[of a "'' '' @ b" ?nt] sublist_appendD[of "'' ''" b ?nt]
    by (auto simp: str_includes_sublist)
  have "detect_in ?nt [t] = None"
    using exact ratio ph1 ph2 by (simp add: Let_def tw phrases_of_def)
  then show ?thesis by (simp add: detectTemplate_def)
qed

lemma reads_word_lit:
  assumes "cs \<noteq> []" "\<forall>a\<in>set cs. is_lower a"
  shows "reads_word ic (lit cs) (length cs)"
  unfolding reads_word_def
proof (intro allI impI)
  fix st st' assume "st' \<in> set (ms ic (lit cs) st)"
  from ms_lit[OF assms(1) this] obtain m where
    m: "st_rest st = m @ st_rest st'" "list_all2 (ch_eq ic) cs m" "fst st' = Some (last m)"
    by blast
  from m(2) assms(1) have ne: "m \<noteq> []" by auto
  from m(2) have len: "length m = length cs" by (simp add: list_all2_lengthD)
  have "is_word c" if "c \<in> set m" for c
  proof -
    from that obtain i where i: "i < length m" "c = m ! i" by (auto simp: in_set_conv_nth)
    with m(2) have "ch_eq ic (cs ! i) c" "cs ! i \<in> set cs"
      by (auto simp: list_all2_conv_all_nth)
    with assms(2) show ?thesis by (auto intro: ch_eq_lower_word)
  qed
  with m ne len
  show "\<exists>m. st_rest st = m @ st_rest st' \<and> m \<noteq> [] \<and> (\<forall>c\<in>set m. is_word c)
             \<and> fst st' = Some (last m) \<and> length m \<le> length cs"
    by auto
qed

lemma reads_word_Alt:
  "reads_word ic a n \<Longrightarrow> reads_word ic b k \<Longrightarrow> reads_word ic (Alt a b) (max n k)"
  unfolding reads_word_def by (auto simp: max_def) (meson le_trans nat_le_linear)+


lemma word_match:
  assumes rw: "reads_word ic body n"
      and st': "st' \<in> set (ms ic (Seq WordB (Seq body WordB)) (p, s, c))"
  shows "\<exists>m. s = m @ st_rest st' \<and> m \<noteq> [] \<and> (\<forall>x\<in>set m. is_word x)
             \<and> \<not> word_opt (next_ch (st_rest st')) \<and> length m \<le> n"
proof -
  from st' obtain st1 where st1: "st1 \<in> set (ms ic body (p, s, c))"
      and e: "st' \<in> set (ms ic WordB st1)"
    by (auto split: if_splits)
  from rw st1 obtain m where m: "st_rest (p, s, c) = m @ st_rest st1" "m \<noteq> []"
      "\<forall>x\<in>set m. is_word x" "fst st1 = Some (last m)" "length m \<le> n"
    unfolding reads_word_def by blast
  from e have eq: "st' = st1" and b: "word_opt (fst st1) \<noteq> word_opt (next_ch (st_rest st1))"
    by (auto split: if_splits)
  from m(2,3,4) have "word_opt (fst st1)" by (simp add: word_opt_def)
  with b have "\<not> word_opt (next_ch (st_rest st1))" by simp
  with m eq show ?thesis by (auto simp: st_rest_def)
qed

lemma copy_word:
  "is_word c \<Longrightarrow> \<forall>x\<in>set v. is_word x \<Longrightarrow>
     \<exists>p'. replace_all_from ic (Seq WordB r') rep (Some c) (v @ b)
            = v @ replace_all_from ic (Seq WordB r') rep p' b"
proof (induction v arbitrary: c)
  case Nil
  then show ?case by auto
next
  case (Cons y ys)
  have "ms ic (Seq WordB r') (Some c, y # ys @ b, None) = []"
    using Cons.prems by (simp add: word_opt_def next_ch_def st_rest_def)
  then have step: "replace_all_from ic (Seq WordB r') rep (Some c) ((y # ys) @ b)
               = y # replace_all_from ic (Seq WordB r') rep (Some y) (ys @ b)"
    by (simp add: replace_all_from.simps[of _ _ _ _ "y # ys @ b"])
  from Cons.IH[of y] Cons.prems obtain p' where
    "replace_all_from ic (Seq WordB r') rep (Some y) (ys @ b)
       = ys @ replace_all_from ic (Seq WordB r') rep p' b" by auto
  with step show ?case by auto
qed

lemma replace_keeps_word:
  assumes rw: "reads_word ic body n"
      and H: "n < length w \<or> sublist w rep"
      and w: "w \<noteq> []" "\<forall>x\<in>set w. is_word x"
  shows "sublist w s \<Longrightarrow> sublist w (replace_all_from ic (Seq WordB (Seq body WordB)) rep p s)"
proof (induction "length s" arbitrary: s p rule: less_induct)
  case less
  let ?r = "Seq WordB (Seq body WordB)"
  show ?case
  proof (cases "ms ic ?r (p, s, None)")
    case Nil
    from less.prems w obtain x xs where s: "s = x # xs" by (cases s) auto
    from Nil have R: "replace_all_from ic ?r rep p s = x # replace_all_from ic ?r rep (Some x) xs"
      unfolding s by (subst replace_all_from.simps) (simp del: ms.simps)
    from less.prems have "prefix w (x # xs) \<or> sublist w xs" by (simp add: s sublist_Cons_right)
    then show ?thesis
    proof
      assume "sublist w xs"
      from less.hyps[OF _ this, of "Some x"] have "sublist w (replace_all_from ic ?r rep (Some x) xs)"
        by (simp add: s)
      then show ?thesis unfolding R by (simp add: sublist_Cons_right)
    next
      assume "prefix w (x # xs)"
      with w obtain w' b where w': "w = x # w'" "xs = w' @ b"
        by (cases w) (auto simp: prefix_def)
      from w w' have "is_word x" "\<forall>y\<in>set w'. is_word y" by auto
      from copy_word[OF this, of ic "Seq body WordB" rep b] obtain p' where
        "replace_all_from ic ?r rep (Some x) (w' @ b) = w' @ replace_all_from ic ?r rep p' b"
        by blast
      with R w' have "replace_all_from ic ?r rep p s = w @ replace_all_from ic ?r rep p' b"
        by simp
      then show ?thesis by simp
    qed
  next
    case (Cons st' sts)
    then have "st' \<in> set (ms ic ?r (p, s, None))" by simp
    from word_match[OF rw this] obtain m where m: "s = m @ st_rest st'" "m \<noteq> []"
        "\<forall>x\<in>set m. is_word x" "\<not> word_opt (next_ch (st_rest st'))" "length m \<le> n"
      by blast
    from m(1,2) have shorter: "length (st_rest st') < length s" by (cases m) auto
    with Cons have R: "replace_all_from ic ?r rep p s
                 = rep @ replace_all_from ic ?r rep (fst st') (st_rest st')"
      by (subst replace_all_from.simps) (simp del: ms.simps)
    from less.prems m(1) have "sublist w (m @ st_rest st')" by simp
    then consider "sublist w m" | "sublist w (st_rest st')"
      | w1 w2 where "w = w1 @ w2" "suffix w1 m" "prefix w2 (st_rest st')"
      by (auto simp: sublist_append)
    then show ?thesis
    proof cases
      case 1
      then have "length w \<le> n" using m(5) by (auto dest: sublist_length_le)
      with H have "sublist w rep" by simp
      then show ?thesis unfolding R by (auto simp: sublist_append)
    next
      case 2
      from less.hyps[OF shorter 2, of "fst st'"] show ?thesis
        unfolding R by (auto simp: sublist_append)
    next
      case 3
      show ?thesis
      proof (cases "w2 = []")
        case True
        with 3 have "sublist w m" by auto
        then have "length w \<le> n" using m(5) by (auto dest: sublist_length_le)
        with H have "sublist w rep" by simp
        then show ?thesis unfolding R by (auto simp: sublist_append)
      next
        case False
        then obtain y ys where y: "w2 = y # ys" by (cases w2) auto
        with 3 w have "is_word y" by auto
        moreover from 3 y have "next_ch (st_rest st') = Some y"
          by (auto simp: prefix_def next_ch_def)
        ultimately show ?thesis using m(4) by (simp add: word_opt_def)
      qed
    qed
  qed
qed

lemma consultation_word: "''consultation'' \<noteq> []" "\<forall>x\<in>set ''consultation''. is_word x"
  by (simp_all add: is_word_def is_lower_def)

lemma reads_consultation:
  "reads_word True (Alt (lit ''consultation'') (lit ''consult'')) 12"
  using reads_word_Alt[OF reads_word_lit[of "''consultation''" True]
                          reads_word_lit[of "''consult''" True]]
  by (simp add: is_lower_def eval_nat_numeral)

lemma reads_soap: "reads_word True (lit ''soap'') 4"
  using reads_word_lit[of "''soap''" True] by (simp add: is_lower_def eval_nat_numeral)

lemma reads_progress: "reads_word True (lit ''progress'') 8"
  using reads_word_lit[of "''progress''" True] by (simp add: is_lower_def eval_nat_numeral)

lemma reads_notes: "reads_word True (Alt (lit ''note'') (lit ''notes'')) 5"
  using reads_word_Alt[OF reads_word_lit[of "''note''" True] reads_word_lit[of "''notes''" True]]
  by (simp add: is_lower_def eval_nat_numeral)

lemma normalize_keeps_consultation:
  assumes "sublist ''consultation'' s"
  shows "sublist ''consultation'' (normalize s)"
proof -
  let ?w = "''consultation''"
  have 1: "sublist ?w (replace_all True re_consultation ''consultation'' s)"
    unfolding replace_all_def re_consultation_def cat.simps
    by (rule replace_keeps_word[OF reads_consultation _ consultation_word assms]) simp
  have 2: "sublist ?w (replace_all True re_soap ''soap'' x)" if "sublist ?w x" for x
    unfolding replace_all_def re_soap_def cat.simps
    by (rule replace_keeps_word[OF reads_soap _ consultation_word that]) simp
  have 3: "sublist ?w (replace_all True re_progress ''progress'' x)" if "sublist ?w x" for x
    unfolding replace_all_def re_progress_def cat.simps
    by (rule replace_keeps_word[OF reads_progress _ consultation_word that]) simp
  have 4: "sublist ?w (replace_all True re_notes ''note'' x)" if "sublist ?w x" for x
    unfolding replace_all_def re_notes_def cat.simps
    by (rule replace_keeps_word[OF reads_notes _ consultation_word that]) simp
  show ?thesis unfolding normalize_def by (intro 4 3 2 1)
qed

lemma consultation_template:
  "normalize (toLowerCase ''Consultation Note Form'') = ''consultation note form''"
  "templateWords_of ''consultation note form'' = [''consultation'']"
  by code_simp+

lemma consultation_detected:
  assumes "str_includes (toLowerCase u) ''consultation''"
  shows "detectTemplate [''Consultation Note Form''] u = Some ''Consultation Note Form''"
proof -
  from assms have ne: "u \<noteq> []" by (auto simp: toLowerCase_def)
  from assms have "str_includes (normalize (toLowerCase u)) ''consultation''"
    by (simp add: str_includes_sublist normalize_keeps_consultation)
  then have "detect_in (normalize (toLowerCase u)) [''Consultation Note Form'']
               = Some ''Consultation Note Form''"
    by (simp add: consultation_template Let_def matchedWords_of_def ratio_ok_def
             del: str_includes.simps)
  with ne show ?thesis by (simp add: detectTemplate_def)
qed

text \<open>
  Claim C6. The significant words of "Consultation Note Form" are the one word
  \<open>consultation\<close>, and every utterance whose lower-cased text contains it (with or
  without \<open>note\<close> and \<open>form\<close>) is matched to that template: one word of one is at
  least 0.7. One word of three is below 0.7, and for any template with three
  significant words an utterance that contains exactly one of them is not matched,
  neither by containment nor by the ratio nor by one of the two phrases.
\<close>

theorem template_fuzzy_threshold:
  "templateWords_of (normalize (toLowerCase ''Consultation Note Form'')) = [''consultation'']
   \<and> (str_includes (toLowerCase u) ''consultation'' \<longrightarrow>
        detectTemplate [''Consultation Note Form''] u = Some ''Consultation Note Form'')
   \<and> ratio_ok 1 1 \<and> \<not> ratio_ok 1 3
   \<and> (length (templateWords_of (normalize (toLowerCase t))) = 3
        \<and> length (matchedWords_of (normalize (toLowerCase v))
                     (templateWords_of (normalize (toLowerCase t)))) = 1 \<longrightarrow>
        detectTemplate [t] v = None)"
  using consultation_detected[of u] one_of_three_no_match[of t v]
  by (simp add: consultation_template ratio_ok_def)

lemma fuzzy_examples:
  "str_includes (toLowerCase ''Start the Consultation'') ''consultation''"
  "\<not> str_includes (toLowerCase ''Start the Consultation'') ''note''"
  "\<not> str_includes (toLowerCase ''Start the Consultation'') ''form''"
  "templateWords_of (normalize (toLowerCase ''Cardiac Stress Echo'')) = [''cardiac'', ''stress'', ''echo'']"
  "matchedWords_of (normalize (toLowerCase ''book a stress test''))
      [''cardiac'', ''stress'', ''echo''] = [''stress'']"
  by code_simp+

theorem template_fuzzy_threshold_witness:
  "str_includes (toLowerCase ''Start the Consultation'') ''consultation''
   \<and> \<not> str_includes (toLowerCase ''Start the Consultation'') ''note''
   \<and> \<not> str_includes (toLowerCase ''Start the Consultation'') ''form''
   \<and> detectTemplate [''Consultation Note Form''] ''Start the Consultation''
       = Some ''Consultation Note Form''
   \<and> length (templateWords_of (normalize (toLowerCase ''Cardiac Stress Echo''))) = 3
   \<and> length (matchedWords_of (normalize (toLowerCase ''book a stress test''))
                (templateWords_of (normalize (toLowerCase ''Cardiac Stress Echo'')))) = 1
   \<and> detectTemplate [''Cardiac Stress Echo''] ''book a stress test'' = None"
  using template_fuzzy_threshold
          [of "''Start the Consultation''" "''Cardiac Stress Echo''" "''book a stress test''"]
        fuzzy_examples
  by simp

section \<open>Session store round trip\<close>

lemma getMRN_clearAll: "getMRN (clearAll st) = None"
  by (auto simp: getMRN_def clearAll_def removeItem_def removeSessionItem_def getItem_def
           split: sum.splits option.splits)

lemma getMRN_saveMRN:
  "ls_fail st = None \<Longrightarrow> m \<noteq> [] \<Longrightarrow> getMRN (saveMRN now m st) = Some m"
  by (simp add: getMRN_def saveMRN_def setItem_def getItem_def updateSessionData_def
                saveSessionData_def setSessionItem_def Let_def)

text \<open>
  Claim C9. On a store that answers without an exception, \<open>saveMRN m\<close> with a text
  \<open>m\<close> that is not empty, followed by \<open>getMRN\<close>, returns \<open>m\<close>; after \<open>clearAll\<close>,
  on any store, \<open>getMRN\<close> returns the absent value.
\<close>

theorem session_store_round_trip:
  "ls_fail st = None \<Longrightarrow> m \<noteq> [] \<Longrightarrow>
     getMRN (saveMRN now m st) = Some m
     \<and> getMRN (clearAll (saveMRN now m st)) = None
     \<and> getMRN (clearAll st') = None"
  by (simp add: getMRN_saveMRN getMRN_clearAll)

theorem session_store_round_trip_witness:
  "ls_fail \<lparr>ls_items = Map.empty, ls_session = None, ls_fail = None\<rparr> = None
   \<and> ''AB123'' \<noteq> []
   \<and> getMRN (saveMRN 0 ''AB123'' \<lparr>ls_items = Map.empty, ls_session = None, ls_fail = None\<rparr>)
       = Some ''AB123''
   \<and> getMRN (clearAll (saveMRN 0 ''AB123''
                \<lparr>ls_items = Map.empty, ls_session = None, ls_fail = None\<rparr>)) = None"
  using session_store_round_trip
          [of "\<lparr>ls_items = Map.empty, ls_session = None, ls_fail = None\<rparr>" "''AB123''" 0]
  by simp

end
